theory Spec2Isabelle
  imports Complex_Main "HOL-Library.AList"
begin

section \<open>The data model of \<open>gsdmm/mgp.py\<close>\<close>

text \<open>
  A token is a Python string, a document a list of tokens. A per-cluster frequency table
  is a Python \<open>dict\<close>; the order in which it iterates (insertion order) is visible in
  \<open>get_top_words\<close>, so it is an association list: \<open>d[w] = v\<close> is
  \<open>AList.update\<close> (an existing key keeps its place, a new key goes to the end) and
  \<open>del d[w]\<close> is \<open>AList.delete\<close>.

  Python's floats are modelled by the reals, \<open>log\<close> and \<open>exp\<close> by \<open>ln\<close> and
  \<open>exp\<close>; rounding, overflow and underflow are outside the model.
\<close>

type_synonym token = string
type_synonym doc = "token list"
type_synonym dict = "(token \<times> int) list"

datatype error = TypeError | IndexError | KeyError | ValueError | LogDomain

record mgp =
  K :: int
  alpha :: real
  beta :: real
  n_iters :: int
  number_docs :: "int option"
  vocab_size :: "int option"
  cluster_doc_count :: "int list"
  cluster_word_count :: "int list"
  cluster_word_distribution :: "dict list"

text \<open>\<open>MovieGroupProcess.__init__\<close>: no argument is checked.\<close>

definition mgp_init :: "int \<Rightarrow> real \<Rightarrow> real \<Rightarrow> int \<Rightarrow> mgp" where
  "mgp_init k a b n =
     \<lparr>K = k, alpha = a, beta = b, n_iters = n,
      number_docs = None, vocab_size = None,
      cluster_doc_count = replicate (nat k) 0,
      cluster_word_count = replicate (nat k) 0,
      cluster_word_distribution = replicate (nat k) []\<rparr>"

text \<open>\<open>MovieGroupProcess.from_data\<close>.\<close>

definition from_data ::
  "int \<Rightarrow> real \<Rightarrow> real \<Rightarrow> int \<Rightarrow> int \<Rightarrow> int list \<Rightarrow> int list \<Rightarrow> dict list \<Rightarrow> mgp" where
  "from_data k a b D V cdc cwc cwd =
     (mgp_init k a b 30)
       \<lparr>number_docs := Some D, vocab_size := Some V,
        cluster_doc_count := cdc, cluster_word_count := cwc,
        cluster_word_distribution := cwd\<rparr>"

subsection \<open>Dictionary operations\<close>

text \<open>\<open>d.get(w, dflt)\<close>, \<open>d[w]\<close> (raises \<open>KeyError\<close>) and \<open>w in d\<close>.\<close>

definition dict_get :: "dict \<Rightarrow> token \<Rightarrow> int \<Rightarrow> int" where
  "dict_get d w dflt = (case map_of d w of None \<Rightarrow> dflt | Some c \<Rightarrow> c)"

definition getitem :: "dict \<Rightarrow> token \<Rightarrow> error + int" where
  "getitem d w = (case map_of d w of None \<Rightarrow> Inl KeyError | Some c \<Rightarrow> Inr c)"

definition contains :: "dict \<Rightarrow> token \<Rightarrow> bool" where
  "contains d w = (map_of d w \<noteq> None)"

section \<open>Scoring\<close>

text \<open>
  \<open>numpy.log\<close> is not code of the repository. On an argument \<open>x \<le> 0\<close> its result is
  not a real number (\<open>nan\<close> or \<open>-inf\<close>, with a runtime warning); the model stops
  there with \<open>LogDomain\<close>.
\<close>

definition np_log :: "real \<Rightarrow> error + real" where
  "np_log x = (if 0 < x then Inr (ln x) else Inl LogDomain)"

text \<open>The loop \<open>for word in doc: lN2 += log(n_z_w[label].get(word, 0) + beta)\<close>.\<close>

fun lN2_loop :: "mgp \<Rightarrow> nat \<Rightarrow> doc \<Rightarrow> real \<Rightarrow> error + real" where
  "lN2_loop m label [] lN2 = Inr lN2"
| "lN2_loop m label (word # ws) lN2 =
     (if length (cluster_word_distribution m) \<le> label then Inl IndexError
      else case np_log (of_int (dict_get (cluster_word_distribution m ! label) word 0) + beta m) of
             Inl e \<Rightarrow> Inl e
           | Inr l \<Rightarrow> lN2_loop m label ws (lN2 + l))"

text \<open>
  The loop \<open>for j in range(1, doc_size + 1): lD2 += log(n_z[label] + V * beta + j - 1)\<close>,
  over the list of the values of \<open>j\<close>.
\<close>

fun lD2_loop :: "mgp \<Rightarrow> nat \<Rightarrow> nat list \<Rightarrow> real \<Rightarrow> error + real" where
  "lD2_loop m label [] lD2 = Inr lD2"
| "lD2_loop m label (j # js) lD2 =
     (if length (cluster_word_count m) \<le> label then Inl IndexError
      else case vocab_size m of
             None \<Rightarrow> Inl TypeError
           | Some V \<Rightarrow>
               (case np_log (of_int (cluster_word_count m ! label) + of_int V * beta m
                              + of_nat j - 1) of
                  Inl e \<Rightarrow> Inl e
                | Inr l \<Rightarrow> lD2_loop m label js (lD2 + l)))"

text \<open>The body of \<open>for label in range(K)\<close>: the value stored in \<open>p[label]\<close>.\<close>

definition score_label :: "mgp \<Rightarrow> real \<Rightarrow> doc \<Rightarrow> nat \<Rightarrow> error + real" where
  "score_label m lD1 doc label =
     (if length (cluster_doc_count m) \<le> label then Inl IndexError
      else case np_log (of_int (cluster_doc_count m ! label) + alpha m) of
             Inl e \<Rightarrow> Inl e
           | Inr lN1 \<Rightarrow>
               (case lN2_loop m label doc 0 of
                  Inl e \<Rightarrow> Inl e
                | Inr lN2 \<Rightarrow>
                    (case lD2_loop m label [1 ..< length doc + 1] 0 of
                       Inl e \<Rightarrow> Inl e
                     | Inr lD2 \<Rightarrow> Inr (exp (lN1 - lD1 + lN2 - lD2)))))"

fun score_labels :: "mgp \<Rightarrow> real \<Rightarrow> doc \<Rightarrow> nat list \<Rightarrow> error + real list" where
  "score_labels m lD1 doc [] = Inr []"
| "score_labels m lD1 doc (label # ls) =
     (case score_label m lD1 doc label of
        Inl e \<Rightarrow> Inl e
      | Inr p \<Rightarrow>
          (case score_labels m lD1 doc ls of
             Inl e \<Rightarrow> Inl e
           | Inr ps \<Rightarrow> Inr (p # ps)))"

text \<open>The vector \<open>p\<close> of \<open>score\<close> before normalisation (lines 234 to 244).\<close>

definition unnormalized :: "mgp \<Rightarrow> doc \<Rightarrow> error + real list" where
  "unnormalized m doc =
     (case number_docs m of
        None \<Rightarrow> Inl TypeError
      | Some D \<Rightarrow>
          (case np_log (of_int D - 1 + of_int (K m) * alpha m) of
             Inl e \<Rightarrow> Inl e
           | Inr lD1 \<Rightarrow> score_labels m lD1 doc [0 ..< nat (K m)]))"

text \<open>The normalisation of lines 247 to 249.\<close>

definition normalize_vec :: "real list \<Rightarrow> real list" where
  "normalize_vec p =
     (let pnorm = sum_list p;
          pnorm = (if pnorm > 0 then pnorm else 1)
      in map (\<lambda>pp. pp / pnorm) p)"

definition score :: "mgp \<Rightarrow> doc \<Rightarrow> error + real list" where
  "score m doc =
     (case unnormalized m doc of
        Inl e \<Rightarrow> Inl e
      | Inr p \<Rightarrow> Inr (normalize_vec p))"

text \<open>
  \<open>numpy.argmax\<close> (the index of the first occurrence of the maximum, \<open>ValueError\<close>
  on an empty sequence) and Python's \<open>max\<close>.
\<close>

fun argmax_from :: "real list \<Rightarrow> nat \<Rightarrow> nat \<Rightarrow> real \<Rightarrow> nat" where
  "argmax_from [] i best bv = best"
| "argmax_from (x # xs) i best bv =
     (if bv < x then argmax_from xs (Suc i) i x else argmax_from xs (Suc i) best bv)"

definition argmax :: "real list \<Rightarrow> error + nat" where
  "argmax p = (case p of [] \<Rightarrow> Inl ValueError | x # xs \<Rightarrow> Inr (argmax_from xs 1 0 x))"

definition py_max :: "real list \<Rightarrow> error + real" where
  "py_max p = (case p of [] \<Rightarrow> Inl ValueError | x # xs \<Rightarrow> Inr (fold max xs x))"

definition choose_best_label :: "mgp \<Rightarrow> doc \<Rightarrow> error + (nat \<times> real)" where
  "choose_best_label m doc =
     (case score m doc of
        Inl e \<Rightarrow> Inl e
      | Inr p \<Rightarrow>
          (case argmax p of
             Inl e \<Rightarrow> Inl e
           | Inr i \<Rightarrow> (case py_max p of Inl e \<Rightarrow> Inl e | Inr v \<Rightarrow> Inr (i, v))))"

section \<open>Top words\<close>

text \<open>
  \<open>argsort\<close> of numpy returns the indices that sort the array in ascending order; the
  order among equal counts is not specified by numpy and is taken here as the stable one
  (it only decides the insertion order of the result of \<open>get_top_words\<close>).
  \<open>last_slice k xs\<close> is \<open>xs[-k:]\<close> and \<open>first_slice k xs\<close> is \<open>xs[:k]\<close>, for any
  Python integer \<open>k\<close>; \<open>join\<close> is \<open>str.join\<close>.
\<close>

definition argsort :: "int list \<Rightarrow> nat list" where
  "argsort xs = sort_key (\<lambda>i. xs ! i) [0 ..< length xs]"

definition last_slice :: "int \<Rightarrow> 'a list \<Rightarrow> 'a list" where
  "last_slice k xs = (if 0 < k then drop (length xs - nat k) xs else drop (nat (- k)) xs)"

definition first_slice :: "int \<Rightarrow> 'a list \<Rightarrow> 'a list" where
  "first_slice k xs = (if 0 \<le> k then take (nat k) xs else take (length xs - nat (- k)) xs)"

fun join :: "string \<Rightarrow> string list \<Rightarrow> string" where
  "join sep [] = []"
| "join sep [w] = w"
| "join sep (w # v # ws) = w @ sep @ join sep (v # ws)"

text \<open>
  \<open>sorted(items, key=lambda k: k[1], reverse=True)\<close>: Python's sort is stable, also with
  \<open>reverse=True\<close>, so it is the stable sort by the negated count.
\<close>

definition sort_dicts :: "int \<Rightarrow> dict \<Rightarrow> dict" where
  "sort_dicts k_words d = first_slice k_words (sort_key (\<lambda>wc. - snd wc) d)"

definition top_index :: "mgp \<Rightarrow> nat list" where
  "top_index m = rev (last_slice (K m) (argsort (cluster_doc_count m)))"

fun top_words_loop ::
  "mgp \<Rightarrow> int \<Rightarrow> string \<Rightarrow> nat list \<Rightarrow> (nat \<times> string) list \<Rightarrow> error + (nat \<times> string) list" where
  "top_words_loop m k_words merge_token [] topic_words = Inr topic_words"
| "top_words_loop m k_words merge_token (cluster # cs) topic_words =
     (if length (cluster_word_distribution m) \<le> cluster then Inl IndexError
      else top_words_loop m k_words merge_token cs
             (AList.update cluster
                (join merge_token
                   (map fst (sort_dicts k_words (cluster_word_distribution m ! cluster))))
                topic_words))"

definition get_top_words :: "mgp \<Rightarrow> int \<Rightarrow> string \<Rightarrow> error + (nat \<times> string) list" where
  "get_top_words m k_words merge_token =
     top_words_loop m k_words merge_token (top_index m) []"

section \<open>Fitting\<close>

subsection \<open>The random source\<close>

text \<open>
  \<open>numpy.random.multinomial\<close> draws from the process-wide generator. The random source
  is made explicit: \<open>rng n p\<close> is the vector that the \<open>n\<close>-th call of
  \<open>multinomial(1, p)\<close> of the run returns. \<open>sample\<close> is \<open>_sample\<close> applied to
  that vector: the index of its first non-zero entry.
\<close>

type_synonym rng = "nat \<Rightarrow> real list \<Rightarrow> int list"

definition sample :: "int list \<Rightarrow> error + nat" where
  "sample outcome =
     (case filter (\<lambda>i. outcome ! i \<noteq> 0) [0 ..< length outcome] of
        [] \<Rightarrow> Inl IndexError
      | i # _ \<Rightarrow> Inr i)"

subsection \<open>Adding a document to a cluster, removing it\<close>

text \<open>
  The loop
  \<open>for word in doc: if word not in n_z_w[z]: n_z_w[z][word] = 0; n_z_w[z][word] += 1\<close>
  (lines 144 to 147 and again 179 to 182).
\<close>

fun add_words :: "dict list \<Rightarrow> nat \<Rightarrow> doc \<Rightarrow> error + dict list" where
  "add_words n_z_w z [] = Inr n_z_w"
| "add_words n_z_w z (word # ws) =
     (if length n_z_w \<le> z then Inl IndexError
      else let d = (if contains (n_z_w ! z) word then n_z_w ! z
                    else AList.update word 0 (n_z_w ! z))
           in case getitem d word of
                Inl e \<Rightarrow> Inl e
              | Inr c \<Rightarrow> add_words (n_z_w[z := AList.update word (c + 1) d]) z ws)"

text \<open>
  The loop
  \<open>for word in doc: n_z_w[z_old][word] -= 1; if n_z_w[z_old][word] == 0: del n_z_w[z_old][word]\<close>
  (lines 160 to 165).
\<close>

fun remove_words :: "dict list \<Rightarrow> nat \<Rightarrow> doc \<Rightarrow> error + dict list" where
  "remove_words n_z_w z [] = Inr n_z_w"
| "remove_words n_z_w z (word # ws) =
     (if length n_z_w \<le> z then Inl IndexError
      else case getitem (n_z_w ! z) word of
             Inl e \<Rightarrow> Inl e
           | Inr c \<Rightarrow>
               (let d = AList.update word (c - 1) (n_z_w ! z);
                    d = (if c - 1 = 0 then AList.delete word d else d)
                in remove_words (n_z_w[z := d]) z ws))"

text \<open>Lines 141 to 147 (and 176 to 182): the document joins cluster \<open>z\<close>.\<close>

definition add_doc :: "mgp \<Rightarrow> nat \<Rightarrow> doc \<Rightarrow> error + mgp" where
  "add_doc m z doc =
     (if length (cluster_doc_count m) \<le> z then Inl IndexError
      else if length (cluster_word_count m) \<le> z then Inl IndexError
      else case add_words (cluster_word_distribution m) z doc of
             Inl e \<Rightarrow> Inl e
           | Inr n_z_w \<Rightarrow>
               Inr (m\<lparr>cluster_doc_count :=
                        (cluster_doc_count m)[z := cluster_doc_count m ! z + 1],
                      cluster_word_count :=
                        (cluster_word_count m)[z := cluster_word_count m ! z + int (length doc)],
                      cluster_word_distribution := n_z_w\<rparr>))"

text \<open>Lines 157 to 165: the document leaves cluster \<open>z_old\<close>.\<close>

definition remove_doc :: "mgp \<Rightarrow> nat \<Rightarrow> doc \<Rightarrow> error + mgp" where
  "remove_doc m z_old doc =
     (if length (cluster_doc_count m) \<le> z_old then Inl IndexError
      else if length (cluster_word_count m) \<le> z_old then Inl IndexError
      else case remove_words (cluster_word_distribution m) z_old doc of
             Inl e \<Rightarrow> Inl e
           | Inr n_z_w \<Rightarrow>
               Inr (m\<lparr>cluster_doc_count :=
                        (cluster_doc_count m)[z_old := cluster_doc_count m ! z_old - 1],
                      cluster_word_count :=
                        (cluster_word_count m)[z_old := cluster_word_count m ! z_old - int (length doc)],
                      cluster_word_distribution := n_z_w\<rparr>))"

subsection \<open>The state of a run of \<open>fit\<close>\<close>

text \<open>
  \<open>model\<close> is \<open>self\<close>, \<open>d_z\<close> the labels, \<open>draws\<close> the number of calls of
  \<open>multinomial\<close> made so far, \<open>stages\<close> the progress lines printed after each sweep
  (sweep index, transfers, populated clusters) and \<open>converged\<close> whether
  \<open>Converged.  Breaking out.\<close> was printed. \<open>trace\<close> is not built by the code: it
  records the model after each reassignment of a document, so that properties of the
  intermediate states can be stated.
\<close>

record run =
  model :: mgp
  d_z :: "nat list"
  draws :: nat
  stages :: "(nat \<times> nat \<times> nat) list"
  converged :: bool
  trace :: "mgp list"

text \<open>
  The initialisation loop (lines 136 to 147). The code fills the slots of
  \<open>d_z = [None, ..., None]\<close> from left to right; the model appends.
\<close>

fun init_loop :: "rng \<Rightarrow> run \<Rightarrow> doc list \<Rightarrow> error + run" where
  "init_loop g s [] = Inr s"
| "init_loop g s (doc # docs) =
     (case sample (g (draws s)
                    (replicate (nat (K (model s))) (1 / of_int (K (model s))))) of
        Inl e \<Rightarrow> Inl e
      | Inr z \<Rightarrow>
          (case add_doc (model s) z doc of
             Inl e \<Rightarrow> Inl e
           | Inr m \<Rightarrow>
               init_loop g (s\<lparr>model := m, d_z := d_z s @ [z], draws := Suc (draws s)\<rparr>) docs))"

text \<open>
  The body of the loop over the documents in a sweep (lines 155 to 182): document
  \<open>i\<close> is reassigned; the result carries the new value of \<open>total_transfers\<close>.
\<close>

definition reassign :: "rng \<Rightarrow> run \<Rightarrow> nat \<Rightarrow> doc \<Rightarrow> nat \<Rightarrow> error + (run \<times> nat)" where
  "reassign g s i doc total_transfers =
     (if length (d_z s) \<le> i then Inl IndexError
      else let z_old = d_z s ! i
           in case remove_doc (model s) z_old doc of
                Inl e \<Rightarrow> Inl e
              | Inr m1 \<Rightarrow>
                  (case score m1 doc of
                     Inl e \<Rightarrow> Inl e
                   | Inr p \<Rightarrow>
                       (case sample (g (draws s) p) of
                          Inl e \<Rightarrow> Inl e
                        | Inr z_new \<Rightarrow>
                            (case add_doc m1 z_new doc of
                               Inl e \<Rightarrow> Inl e
                             | Inr m2 \<Rightarrow>
                                 Inr (s\<lparr>model := m2, d_z := (d_z s)[i := z_new],
                                        draws := Suc (draws s),
                                        trace := trace s @ [m2]\<rparr>,
                                      if z_new \<noteq> z_old then total_transfers + 1
                                      else total_transfers)))))"

fun sweep_loop :: "rng \<Rightarrow> run \<Rightarrow> nat \<Rightarrow> doc list \<Rightarrow> nat \<Rightarrow> error + (run \<times> nat)" where
  "sweep_loop g s i [] total_transfers = Inr (s, total_transfers)"
| "sweep_loop g s i (doc # docs) total_transfers =
     (case reassign g s i doc total_transfers of
        Inl e \<Rightarrow> Inl e
      | Inr (s', tt) \<Rightarrow> sweep_loop g s' (Suc i) docs tt)"

text \<open>\<open>sum(v > 0 for v in m_z)\<close>.\<close>

definition populated :: "mgp \<Rightarrow> nat" where
  "populated m = length (filter (\<lambda>v. 0 < v) (cluster_doc_count m))"

text \<open>
  The loop \<open>for _iter in range(n_iters)\<close> (lines 149 to 196), over the list of the
  values of \<open>_iter\<close> still to come.
\<close>

fun sweeps :: "rng \<Rightarrow> doc list \<Rightarrow> run \<Rightarrow> int \<Rightarrow> nat list \<Rightarrow> error + run" where
  "sweeps g docs s cluster_count [] = Inr s"
| "sweeps g docs s cluster_count (iter # iters) =
     (case sweep_loop g s 0 docs 0 of
        Inl e \<Rightarrow> Inl e
      | Inr (s', total_transfers) \<Rightarrow>
          (let cluster_count_new = populated (model s');
               s'' = s'\<lparr>stages := stages s' @ [(iter, total_transfers, cluster_count_new)]\<rparr>
           in if total_transfers = 0 \<and> int cluster_count_new = cluster_count \<and> 25 < iter
              then Inr (s''\<lparr>converged := True\<rparr>)
              else sweeps g docs s'' (int cluster_count_new) iters))"

text \<open>Lines 122 to 147 of \<open>fit\<close>: the assignments to \<open>self\<close> and the initialisation.\<close>

definition init_pass :: "rng \<Rightarrow> mgp \<Rightarrow> doc list \<Rightarrow> int \<Rightarrow> error + run" where
  "init_pass g m docs V =
     init_loop g
       \<lparr>model = m\<lparr>number_docs := Some (int (length docs)), vocab_size := Some V\<rparr>,
        d_z = [], draws = 0, stages = [], converged = False, trace = []\<rparr>
       docs"

text \<open>
  \<open>fit\<close>: the result holds the labels returned (\<open>d_z\<close>) and the model as the call
  leaves it.
\<close>

definition fit :: "rng \<Rightarrow> mgp \<Rightarrow> doc list \<Rightarrow> int \<Rightarrow> error + run" where
  "fit g m docs V =
     (case init_pass g m docs V of
        Inl e \<Rightarrow> Inl e
      | Inr s \<Rightarrow> sweeps g docs s (K m) [0 ..< nat (n_iters m)])"

section \<open>Specification-side definitions\<close>

text \<open>
  The statistics have \<open>K\<close> slots and the model has been given \<open>D\<close> and \<open>V\<close>
  (by \<open>fit\<close> or by \<open>from_data\<close>).
\<close>

definition fitted :: "mgp \<Rightarrow> int \<Rightarrow> int \<Rightarrow> bool" where
  "fitted m D V =
     (number_docs m = Some D \<and> vocab_size m = Some V
      \<and> length (cluster_doc_count m) = nat (K m)
      \<and> length (cluster_word_count m) = nat (K m)
      \<and> length (cluster_word_distribution m) = nat (K m))"

text \<open>The frequency of a token in a cluster: 0 when the token is absent from the table.\<close>

definition freq :: "mgp \<Rightarrow> nat \<Rightarrow> token \<Rightarrow> int" where
  "freq m z w = (case map_of (cluster_word_distribution m ! z) w of None \<Rightarrow> 0 | Some c \<Rightarrow> c)"

text \<open>The weight of cluster \<open>z\<close> as the specification writes it (formula 3 of the paper).\<close>

definition posterior_weight :: "mgp \<Rightarrow> int \<Rightarrow> int \<Rightarrow> doc \<Rightarrow> nat \<Rightarrow> real" where
  "posterior_weight m D V doc z =
     exp (ln (of_int (cluster_doc_count m ! z) + alpha m)
          - ln (of_int D - 1 + of_int (K m) * alpha m)
          + (\<Sum>w\<leftarrow>doc. ln (of_int (freq m z w) + beta m))
          - (\<Sum>j\<leftarrow>[1 ..< Suc (length doc)].
               ln (of_int (cluster_word_count m ! z) + of_int V * beta m + of_nat j - 1)))"

text \<open>The arguments on which \<open>score\<close> calls \<open>log\<close>, first for one label, then all.\<close>

definition log_args_label :: "mgp \<Rightarrow> int \<Rightarrow> doc \<Rightarrow> nat \<Rightarrow> real list" where
  "log_args_label m V doc z =
     (of_int (cluster_doc_count m ! z) + alpha m)
     # map (\<lambda>w. of_int (freq m z w) + beta m) doc
     @ map (\<lambda>j. of_int (cluster_word_count m ! z) + of_int V * beta m + of_nat j - 1)
         [1 ..< Suc (length doc)]"

definition log_args :: "mgp \<Rightarrow> int \<Rightarrow> int \<Rightarrow> doc \<Rightarrow> real list" where
  "log_args m D V doc =
     (of_int D - 1 + of_int (K m) * alpha m)
     # concat (map (log_args_label m V doc) [0 ..< nat (K m)])"



text \<open>
  The invariants of the statistics. \<open>stats_ok D m\<close> is what the specification asks of
  the statistics: \<open>K\<close> slots, the document counts sum to \<open>D\<close>, the word count of
  each cluster is the sum of the values of its table, and no table maps a token to a
  count that is not positive. \<open>consistent\<close> adds that the keys of a table are
  distinct, which is what makes the property inductive; \<open>run_ok\<close> extends it to the
  trace of a run.
\<close>

definition dict_ok :: "dict \<Rightarrow> bool" where
  "dict_ok d = (distinct (map fst d) \<and> (\<forall>wc \<in> set d. 0 < snd wc))"

definition consistent :: "mgp \<Rightarrow> bool" where
  "consistent m =
     (length (cluster_doc_count m) = nat (K m)
      \<and> length (cluster_word_count m) = nat (K m)
      \<and> length (cluster_word_distribution m) = nat (K m)
      \<and> (\<forall>z < nat (K m).
            cluster_word_count m ! z = sum_list (map snd (cluster_word_distribution m ! z))
            \<and> dict_ok (cluster_word_distribution m ! z)))"

definition stats_ok :: "int \<Rightarrow> mgp \<Rightarrow> bool" where
  "stats_ok D m =
     (length (cluster_doc_count m) = nat (K m)
      \<and> length (cluster_word_count m) = nat (K m)
      \<and> length (cluster_word_distribution m) = nat (K m)
      \<and> sum_list (cluster_doc_count m) = D
      \<and> (\<forall>z < nat (K m).
            cluster_word_count m ! z = sum_list (map snd (cluster_word_distribution m ! z)))
      \<and> (\<forall>d \<in> set (cluster_word_distribution m). \<forall>wc \<in> set d. 0 < snd wc))"

definition run_ok :: "int \<Rightarrow> run \<Rightarrow> bool" where
  "run_ok D s =
     (consistent (model s) \<and> sum_list (cluster_doc_count (model s)) = D
      \<and> (\<forall>t \<in> set (trace s). stats_ok D t))"

text \<open>Two random sources return the same vectors on the first \<open>n\<close> draws.\<close>

definition same_draws :: "nat \<Rightarrow> rng \<Rightarrow> rng \<Rightarrow> bool" where
  "same_draws n g1 g2 = (\<forall>i < n. \<forall>p. g2 i p = g1 i p)"

text \<open>
  The convergence rule on a progress line \<open>(sweep index, transfers, populated clusters)\<close>,
  given the value of \<open>cluster_count\<close> before the sweep; \<open>count_before\<close> is that value
  for sweep \<open>i\<close>: \<open>K\<close> for the first sweep, then the count of the sweep before.
\<close>

definition stop_rule :: "int \<Rightarrow> nat \<times> nat \<times> nat \<Rightarrow> bool" where
  "stop_rule before st =
     (case st of (iter, transfers, count) \<Rightarrow> transfers = 0 \<and> int count = before \<and> 25 < iter)"

definition count_before :: "int \<Rightarrow> (nat \<times> nat \<times> nat) list \<Rightarrow> nat \<Rightarrow> int" where
  "count_before k sts i = (if i = 0 then k else int (snd (snd (sts ! (i - 1)))))"

text \<open>
  What the statistics record, used to show that \<open>fit\<close> returns. \<open>asg\<close> lists the
  documents that are in a cluster, each with its label; \<open>occ asg z w\<close> is the number of
  occurrences of token \<open>w\<close> in the documents of cluster \<open>z\<close> and \<open>members asg z\<close> the
  number of these documents. \<open>tracks\<close> says that the statistics are these numbers,
  \<open>valid_rng\<close> that a draw for a non-empty vector is a vector of the same length with a
  non-zero entry (as \<open>multinomial(1, p)\<close> returns), \<open>configured\<close> that the parameters are
  in range, and \<open>sound\<close> puts them together for the labels of the documents \<open>pre\<close>.
\<close>

definition occ :: "(nat \<times> doc) list \<Rightarrow> nat \<Rightarrow> token \<Rightarrow> int" where
  "occ asg z w = (\<Sum>ld\<leftarrow>asg. if fst ld = z then int (count_list (snd ld) w) else 0)"

definition members :: "(nat \<times> doc) list \<Rightarrow> nat \<Rightarrow> int" where
  "members asg z = (\<Sum>ld\<leftarrow>asg. if fst ld = z then 1 else 0)"

definition tracks :: "mgp \<Rightarrow> (nat \<times> doc) list \<Rightarrow> bool" where
  "tracks m asg =
     (consistent m
      \<and> (\<forall>z < nat (K m).
            cluster_doc_count m ! z = members asg z
            \<and> (\<forall>w. dict_get (cluster_word_distribution m ! z) w 0 = occ asg z w)))"

definition valid_rng :: "rng \<Rightarrow> bool" where
  "valid_rng g = (\<forall>n p. p \<noteq> [] \<longrightarrow> length (g n p) = length p \<and> (\<exists>i < length p. g n p ! i \<noteq> 0))"

definition configured :: "mgp \<Rightarrow> int \<Rightarrow> int \<Rightarrow> bool" where
  "configured m D V =
     (number_docs m = Some D \<and> vocab_size m = Some V
      \<and> 0 < alpha m \<and> 0 < beta m \<and> 1 \<le> K m \<and> 1 \<le> V)"

definition sound :: "doc list \<Rightarrow> doc list \<Rightarrow> int \<Rightarrow> run \<Rightarrow> bool" where
  "sound docs pre V s =
     (configured (model s) (int (length docs)) V
      \<and> length (d_z s) = length pre
      \<and> tracks (model s) (zip (d_z s) pre)
      \<and> (\<forall>l \<in> set (d_z s). l < nat (K (model s))))"

section \<open>Properties of scoring\<close>

lemma normalize_vec_length: "length (normalize_vec p) = length p"
  by (simp add: normalize_vec_def Let_def)





lemma unnormalized_example:
  "unnormalized (from_data 2 1 1 0 1 [0, 0] [0, 0] [[], []]) [''a''] = Inr [1, 1]"
  by (simp add: unnormalized_def from_data_def mgp_init_def score_label_def np_log_def
      dict_get_def eval_nat_numeral)



lemma dict_get_freq: "dict_get (cluster_word_distribution m ! z) w 0 = freq m z w"
  by (simp add: dict_get_def freq_def)

lemma lN2_loop_fitted:
  assumes "label < length (cluster_word_distribution m)"
  shows "lN2_loop m label ws acc =
           (if \<forall>w \<in> set ws. 0 < of_int (freq m label w) + beta m
            then Inr (acc + (\<Sum>w\<leftarrow>ws. ln (of_int (freq m label w) + beta m)))
            else Inl LogDomain)"
  using assms
  by (induction ws arbitrary: acc) (auto simp: np_log_def dict_get_freq)

lemma lD2_loop_fitted:
  assumes "label < length (cluster_word_count m)" and "vocab_size m = Some V"
  shows "lD2_loop m label js acc =
           (if \<forall>j \<in> set js. 0 < of_int (cluster_word_count m ! label) + of_int V * beta m + of_nat j - 1
            then Inr (acc + (\<Sum>j\<leftarrow>js. ln (of_int (cluster_word_count m ! label) + of_int V * beta m + of_nat j - 1)))
            else Inl LogDomain)"
  using assms
  by (induction js arbitrary: acc) (auto simp: np_log_def)

lemma score_label_fitted:
  assumes "fitted m D V" and "z < nat (K m)"
  shows "score_label m (ln (of_int D - 1 + of_int (K m) * alpha m)) doc z =
           (if \<forall>x \<in> set (log_args_label m V doc z). 0 < x
            then Inr (posterior_weight m D V doc z) else Inl LogDomain)"
proof -
  from assms have l: "z < length (cluster_doc_count m)" "z < length (cluster_word_count m)"
      "z < length (cluster_word_distribution m)" and v: "vocab_size m = Some V"
    by (simp_all add: fitted_def)
  let ?a1 = "of_int (cluster_doc_count m ! z) + alpha m"
  let ?f2 = "\<lambda>w. of_int (freq m z w) + beta m"
  let ?f3 = "\<lambda>j. of_int (cluster_word_count m ! z) + of_int V * beta m + of_nat j - 1"
  let ?js = "[1 ..< Suc (length doc)]"
  have js: "[1 ..< length doc + 1] = ?js"
    by (simp del: upt_Suc)
  have args: "(\<forall>x \<in> set (log_args_label m V doc z). 0 < x) \<longleftrightarrow>
                0 < ?a1 \<and> (\<forall>w \<in> set doc. 0 < ?f2 w) \<and> (\<forall>j \<in> set ?js. 0 < ?f3 j)"
    unfolding log_args_label_def by (simp add: ball_Un del: upt_Suc)
  show ?thesis
    unfolding score_label_def js args lN2_loop_fitted [OF l(3)] lD2_loop_fitted [OF l(2) v]
    using l(1) by (simp add: np_log_def posterior_weight_def del: upt_Suc)
qed

lemma score_labels_fitted:
  assumes "fitted m D V" and "\<forall>z \<in> set ls. z < nat (K m)"
  shows "score_labels m (ln (of_int D - 1 + of_int (K m) * alpha m)) doc ls =
           (if \<forall>z \<in> set ls. \<forall>x \<in> set (log_args_label m V doc z). 0 < x
            then Inr (map (posterior_weight m D V doc) ls) else Inl LogDomain)"
  using assms(2)
proof (induction ls)
  case Nil
  then show ?case by simp
next
  case (Cons z ls)
  then show ?case
    by (simp add: score_label_fitted [OF assms(1)])
qed

lemma unnormalized_fitted:
  assumes "fitted m D V"
  shows "unnormalized m doc =
           (if \<forall>x \<in> set (log_args m D V doc). 0 < x
            then Inr (map (posterior_weight m D V doc) [0 ..< nat (K m)]) else Inl LogDomain)"
proof -
  have d: "number_docs m = Some D"
    using assms by (simp add: fitted_def)
  have "\<forall>z \<in> set [0 ..< nat (K m)]. z < nat (K m)"
    by simp
  note score_labels_fitted [OF assms this]
  then show ?thesis
    by (auto simp: unnormalized_def d np_log_def log_args_def)
qed




lemma score_fitted:
  assumes "fitted m D V"
  shows "score m doc =
           (if \<forall>x \<in> set (log_args m D V doc). 0 < x
            then Inr (normalize_vec (map (posterior_weight m D V doc) [0 ..< nat (K m)]))
            else Inl LogDomain)"
  by (simp add: score_def unnormalized_fitted [OF assms])

lemma lD1_arg_in: "of_int D - 1 + of_int (K m) * alpha m \<in> set (log_args m D V doc)"
  by (simp add: log_args_def)



lemma log_args_cases:
  assumes "x \<in> set (log_args m D V doc)"
  shows "x = of_int D - 1 + of_int (K m) * alpha m
         \<or> (\<exists>z < nat (K m). x = of_int (cluster_doc_count m ! z) + alpha m)
         \<or> (\<exists>z < nat (K m). \<exists>w \<in> set doc. x = of_int (freq m z w) + beta m)
         \<or> (\<exists>z < nat (K m). \<exists>j \<ge> 1.
               x = of_int (cluster_word_count m ! z) + of_int V * beta m + of_nat j - 1)"
  using assms unfolding log_args_def log_args_label_def
  by (auto simp del: upt_Suc)

lemma log_args_positive:
  assumes "0 < alpha m" and "0 < beta m" and "1 \<le> D" and "1 \<le> K m" and "1 \<le> V"
    and "\<forall>z < nat (K m). 0 \<le> cluster_doc_count m ! z \<and> 0 \<le> cluster_word_count m ! z"
    and "\<forall>z < nat (K m). \<forall>w. 0 \<le> freq m z w"
    and "x \<in> set (log_args m D V doc)"
  shows "0 < x"
proof -
  have vb: "0 < real_of_int V * beta m"
    using assms(2,5) by simp
  have ka: "0 < real_of_int (K m) * alpha m"
    using assms(1,4) by simp
  have d: "0 \<le> real_of_int D - 1"
    using assms(3) by simp
  from log_args_cases [OF assms(8)] show ?thesis
  proof (elim disjE exE conjE bexE)
    assume "x = of_int D - 1 + of_int (K m) * alpha m"
    with ka d show ?thesis by linarith
  next
    fix z assume "z < nat (K m)" "x = of_int (cluster_doc_count m ! z) + alpha m"
    then show ?thesis using assms(1,6) by (simp add: add_nonneg_pos)
  next
    fix z w assume "z < nat (K m)" "w \<in> set doc" "x = of_int (freq m z w) + beta m"
    then show ?thesis using assms(2,7) by (simp add: add_nonneg_pos)
  next
    fix z j assume "z < nat (K m)" "(1::nat) \<le> j"
      "x = of_int (cluster_word_count m ! z) + of_int V * beta m + of_nat j - 1"
    moreover have "0 \<le> real_of_int (cluster_word_count m ! z)" and "1 \<le> real j"
      using assms(6) \<open>z < nat (K m)\<close> \<open>1 \<le> j\<close> by simp_all
    ultimately show ?thesis using vb by linarith
  qed
qed





lemma lN2_loop_n_iters [simp]: "lN2_loop (m\<lparr>n_iters := n\<rparr>) z ws acc = lN2_loop m z ws acc"
  by (induction ws arbitrary: acc) (auto split: sum.splits)

lemma lD2_loop_n_iters [simp]: "lD2_loop (m\<lparr>n_iters := n\<rparr>) z js acc = lD2_loop m z js acc"
  by (induction js arbitrary: acc) (auto split: sum.splits option.splits)

lemma score_labels_n_iters [simp]:
  "score_labels (m\<lparr>n_iters := n\<rparr>) lD1 doc ls = score_labels m lD1 doc ls"
  by (induction ls) (auto simp: score_label_def split: sum.splits)

lemma score_n_iters: "score (m\<lparr>n_iters := n\<rparr>) doc = score m doc"
  by (simp add: score_def unnormalized_def cong: option.case_cong sum.case_cong)

lemma top_words_loop_n_iters [simp]:
  "top_words_loop (m\<lparr>n_iters := n\<rparr>) k sep cs tw = top_words_loop m k sep cs tw"
  by (induction cs arbitrary: tw) auto

lemma get_top_words_n_iters: "get_top_words (m\<lparr>n_iters := n\<rparr>) k sep = get_top_words m k sep"
  by (simp add: get_top_words_def top_index_def)

lemma from_data_captured:
  assumes "number_docs m = Some D" and "vocab_size m = Some V"
  shows "from_data (K m) (alpha m) (beta m) D V (cluster_doc_count m) (cluster_word_count m)
           (cluster_word_distribution m) = m\<lparr>n_iters := 30\<rparr>"
  using assms by (simp add: from_data_def mgp_init_def)

text \<open>
  Claim C5. The model that \<open>from_data\<close> builds from the state of a model holding
  \<open>D\<close> and \<open>V\<close> gives the same \<open>score\<close>, \<open>choose_best_label\<close> and
  \<open>get_top_words\<close> as that model.
\<close>

theorem from_data_equivalent:
  assumes "number_docs m = Some D" and "vocab_size m = Some V"
  shows "score (from_data (K m) (alpha m) (beta m) D V (cluster_doc_count m)
                  (cluster_word_count m) (cluster_word_distribution m)) doc
           = score m doc
       \<and> choose_best_label (from_data (K m) (alpha m) (beta m) D V (cluster_doc_count m)
                  (cluster_word_count m) (cluster_word_distribution m)) doc
           = choose_best_label m doc
       \<and> get_top_words (from_data (K m) (alpha m) (beta m) D V (cluster_doc_count m)
                  (cluster_word_count m) (cluster_word_distribution m)) k_words merge_token
           = get_top_words m k_words merge_token"
  unfolding from_data_captured [OF assms]
  by (simp add: score_n_iters get_top_words_n_iters choose_best_label_def)

theorem from_data_equivalent_witness:
  "number_docs (from_data 2 1 1 2 1 [1, 0] [1, 0] [[(''a'', 1)], []]) = Some 2
   \<and> vocab_size (from_data 2 1 1 2 1 [1, 0] [1, 0] [[(''a'', 1)], []]) = Some 1
   \<and> score (from_data 2 1 1 2 1 [1, 0] [1, 0] [[(''a'', 1)], []]) [''a'']
       = score ((from_data 2 1 1 2 1 [1, 0] [1, 0] [[(''a'', 1)], []])\<lparr>n_iters := 7\<rparr>) [''a'']"
proof -
  let ?m = "(from_data 2 1 1 2 1 [1, 0] [1, 0] [[(''a'', 1)], []])\<lparr>n_iters := 7\<rparr>"
  have d: "number_docs ?m = Some 2" and v: "vocab_size ?m = Some 1"
    by (simp_all add: from_data_def mgp_init_def)
  have e: "from_data (K ?m) (alpha ?m) (beta ?m) 2 1 (cluster_doc_count ?m)
             (cluster_word_count ?m) (cluster_word_distribution ?m)
           = from_data 2 1 1 2 1 [1, 0] [1, 0] [[(''a'', 1)], []]"
    by (simp add: from_data_def mgp_init_def)
  from from_data_equivalent [OF d v, of "[''a'']"] show ?thesis
    unfolding e by (simp add: from_data_def mgp_init_def)
qed

lemma argmax_from_first_max:
  assumes "best < length ys" and "ys ! best = bv"
    and "\<forall>j < length ys. ys ! j \<le> bv" and "\<forall>j < best. ys ! j < bv"
  shows "argmax_from xs (length ys) best bv < length (ys @ xs)
       \<and> (\<forall>j < length (ys @ xs). (ys @ xs) ! j \<le> (ys @ xs) ! argmax_from xs (length ys) best bv)
       \<and> (\<forall>j < argmax_from xs (length ys) best bv.
             (ys @ xs) ! j < (ys @ xs) ! argmax_from xs (length ys) best bv)"
  using assms
proof (induction xs arbitrary: ys best bv)
  case Nil
  then show ?case by simp
next
  case (Cons x xs)
  show ?case
  proof (cases "bv < x")
    case True
    have "argmax_from xs (length (ys @ [x])) (length ys) x < length ((ys @ [x]) @ xs)
       \<and> (\<forall>j < length ((ys @ [x]) @ xs).
             ((ys @ [x]) @ xs) ! j \<le> ((ys @ [x]) @ xs) ! argmax_from xs (length (ys @ [x])) (length ys) x)
       \<and> (\<forall>j < argmax_from xs (length (ys @ [x])) (length ys) x.
             ((ys @ [x]) @ xs) ! j < ((ys @ [x]) @ xs) ! argmax_from xs (length (ys @ [x])) (length ys) x)"
    proof (rule Cons.IH)
      show "length ys < length (ys @ [x])" by simp
      show "(ys @ [x]) ! length ys = x" by simp
      show "\<forall>j < length (ys @ [x]). (ys @ [x]) ! j \<le> x"
        using Cons.prems(3) True by (auto simp: nth_append less_Suc_eq intro: order_trans less_imp_le)
      show "\<forall>j < length ys. (ys @ [x]) ! j < x"
        using Cons.prems(3) True by (auto simp: nth_append intro: le_less_trans)
    qed
    with True show ?thesis by simp
  next
    case False
    have "argmax_from xs (length (ys @ [x])) best bv < length ((ys @ [x]) @ xs)
       \<and> (\<forall>j < length ((ys @ [x]) @ xs).
             ((ys @ [x]) @ xs) ! j \<le> ((ys @ [x]) @ xs) ! argmax_from xs (length (ys @ [x])) best bv)
       \<and> (\<forall>j < argmax_from xs (length (ys @ [x])) best bv.
             ((ys @ [x]) @ xs) ! j < ((ys @ [x]) @ xs) ! argmax_from xs (length (ys @ [x])) best bv)"
    proof (rule Cons.IH)
      show "best < length (ys @ [x])" using Cons.prems(1) by simp
      show "(ys @ [x]) ! best = bv" using Cons.prems(1,2) by (simp add: nth_append)
      show "\<forall>j < length (ys @ [x]). (ys @ [x]) ! j \<le> bv"
        using Cons.prems(3) False by (auto simp: nth_append less_Suc_eq)
      show "\<forall>j < best. (ys @ [x]) ! j < bv"
        using Cons.prems(1,4) by (auto simp: nth_append)
    qed
    with False show ?thesis by simp
  qed
qed

lemma argmax_first_max:
  assumes "argmax p = Inr i"
  shows "i < length p \<and> (\<forall>j < length p. p ! j \<le> p ! i) \<and> (\<forall>j < i. p ! j < p ! i)"
proof (cases p)
  case Nil
  with assms show ?thesis by (simp add: argmax_def)
next
  case (Cons x xs)
  with assms have i: "i = argmax_from xs (length [x]) 0 x"
    by (simp add: argmax_def)
  have "argmax_from xs (length [x]) 0 x < length ([x] @ xs)
       \<and> (\<forall>j < length ([x] @ xs). ([x] @ xs) ! j \<le> ([x] @ xs) ! argmax_from xs (length [x]) 0 x)
       \<and> (\<forall>j < argmax_from xs (length [x]) 0 x.
             ([x] @ xs) ! j < ([x] @ xs) ! argmax_from xs (length [x]) 0 x)"
    by (rule argmax_from_first_max) simp_all
  with i Cons show ?thesis by simp
qed

lemma py_max_Max: "py_max p = Inr v \<Longrightarrow> v = Max (set p)"
proof (cases p)
  case Nil
  assume "py_max p = Inr v"
  with Nil show ?thesis by (simp add: py_max_def)
next
  case (Cons x xs)
  assume "py_max p = Inr v"
  with Cons have "v = fold max xs x" by (simp add: py_max_def)
  also have "\<dots> = Max (set (x # xs))" by (rule Max.set_eq_fold [symmetric])
  finally show ?thesis using Cons by simp
qed

lemma Max_nth:
  assumes "i < length p" and "\<forall>j < length p. p ! j \<le> (p ! i :: real)"
  shows "Max (set p) = p ! i"
proof (rule Max_eqI)
  show "finite (set p)" by simp
  show "p ! i \<in> set p" using assms(1) by simp
  fix y assume "y \<in> set p"
  then show "y \<le> p ! i" using assms(2) by (auto simp: in_set_conv_nth)
qed

text \<open>
  Claim C7. When \<open>score\<close> returns the vector \<open>p\<close>, \<open>choose_best_label\<close> returns
  the pair of an index \<open>i\<close> and \<open>p[i]\<close>, where \<open>p[i]\<close> is the maximum of \<open>p\<close> and
  every entry before \<open>i\<close> is strictly smaller (the lowest index among ties); on an
  empty vector \<open>argmax\<close> raises. Both functions only read the model: in the
  embedding they take the model and return no new one.
\<close>

theorem choose_best_label_argmax:
  assumes "score m doc = Inr p"
  shows "(p = [] \<longrightarrow> choose_best_label m doc = Inl ValueError)
       \<and> (p \<noteq> [] \<longrightarrow>
            (\<exists>i. choose_best_label m doc = Inr (i, p ! i) \<and> i < length p
                 \<and> (\<forall>j < length p. p ! j \<le> p ! i) \<and> (\<forall>j < i. p ! j < p ! i)))"
proof (cases p)
  case Nil
  with assms show ?thesis by (simp add: choose_best_label_def argmax_def)
next
  case (Cons x xs)
  then obtain i v where i: "argmax p = Inr i" and v: "py_max p = Inr v"
    by (simp add: argmax_def py_max_def)
  note a = argmax_first_max [OF i]
  have "v = p ! i"
    using py_max_Max [OF v] Max_nth [of i p] a by simp
  with assms i v a Cons show ?thesis
    by (simp add: choose_best_label_def)
qed


theorem choose_best_label_argmax_witness:
  "score (from_data 2 1 1 0 1 [0, 0] [0, 0] [[], []]) [''a''] = Inr [1 / 2, 1 / 2]
   \<and> choose_best_label (from_data 2 1 1 0 1 [0, 0] [0, 0] [[], []]) [''a''] = Inr (0, 1 / 2)"
proof -
  let ?m = "from_data 2 1 1 0 1 [0, 0] [0, 0] [[], []]"
  have s: "score ?m [''a''] = Inr [1 / 2, 1 / 2]"
    by (simp add: score_def unnormalized_example normalize_vec_def)
  from choose_best_label_argmax [OF s]
  obtain i where i: "choose_best_label ?m [''a''] = Inr (i, [1 / 2, 1 / 2] ! i)"
    and l: "i < length [1 / 2, 1 / 2 :: real]"
    and f: "\<forall>j < i. [1 / 2, 1 / 2 :: real] ! j < [1 / 2, 1 / 2] ! i"
    by auto
  have "i = 0"
  proof (rule ccontr)
    assume "i \<noteq> 0"
    with l have "i = 1" by simp
    with f have "\<forall>j < 1. [1 / 2, 1 / 2 :: real] ! j < [1 / 2, 1 / 2] ! 1" by simp
    then have "[1 / 2, 1 / 2 :: real] ! 0 < [1 / 2, 1 / 2] ! 1" by (rule allE [of _ 0]) simp
    then show False by simp
  qed
  with i s show ?thesis by simp
qed

section \<open>Properties of the top words\<close>







lemma set_argsort: "set (argsort xs) = {0 ..< length xs}"
  by (simp add: argsort_def)







section \<open>Properties of fitting\<close>

subsection \<open>Tables\<close>

lemma sum_list_update_int:
  "i < length xs \<Longrightarrow> sum_list (xs[i := v]) = sum_list xs - xs ! i + (v :: int)"
  by (induction xs arbitrary: i) (auto split: nat.splits)

lemma sum_values_update:
  "sum_list (map snd (AList.update k v d)) =
     sum_list (map snd d) + v - (case map_of d k of None \<Rightarrow> 0 | Some c \<Rightarrow> (c :: int))"
  by (induction d) auto

lemma map_of_distinct_notin:
  "distinct (map fst d) \<Longrightarrow> (k, c) \<in> set d \<Longrightarrow> map_of d k = Some c"
  by simp

lemma sum_values_delete:
  "distinct (map fst d) \<Longrightarrow> map_of d k = Some c \<Longrightarrow>
     sum_list (map snd (AList.delete k d)) = sum_list (map snd d) - (c :: int)"
proof (induction d)
  case Nil
  then show ?case by simp
next
  case (Cons x d)
  show ?case
  proof (cases "fst x = k")
    case True
    with Cons.prems have "k \<notin> fst ` set d" and "snd x = c"
      by auto
    then show ?thesis
      using True by (cases x) (simp add: delete_id)
  next
    case False
    with Cons show ?thesis by (cases x) auto
  qed
qed

lemma set_update_distinct:
  "distinct (map fst d) \<Longrightarrow>
     set (AList.update k v d) = insert (k, v) {x \<in> set d. fst x \<noteq> k}"
  by (induction d) (auto simp: image_iff)

lemma set_delete: "set (AList.delete k d) = {x \<in> set d. fst x \<noteq> k}"
  by (auto simp: AList.delete_eq)

lemma dict_ok_map_of_pos: "dict_ok d \<Longrightarrow> map_of d w = Some c \<Longrightarrow> 0 < c"
  by (auto simp: dict_ok_def dest: map_of_SomeD)

lemma dict_ok_update: "dict_ok d \<Longrightarrow> 0 < v \<Longrightarrow> dict_ok (AList.update k v d)"
  by (auto simp: dict_ok_def distinct_update set_update_distinct)

lemma dict_ok_delete: "dict_ok d \<Longrightarrow> dict_ok (AList.delete k d)"
  by (auto simp: dict_ok_def distinct_delete set_delete)

text \<open>One turn of the loop of \<open>add_words\<close> on the table of the cluster.\<close>

lemma add_word_step:
  fixes d :: dict and w :: token
  assumes "dict_ok d"
  defines "d1 \<equiv> (if contains d w then d else AList.update w 0 d)"
  shows "\<exists>c. getitem d1 w = Inr c \<and> dict_ok (AList.update w (c + 1) d1)
           \<and> sum_list (map snd (AList.update w (c + 1) d1)) = sum_list (map snd d) + 1"
proof (cases "map_of d w")
  case None
  then have d1: "d1 = AList.update w 0 d"
    by (simp add: d1_def contains_def)
  have g: "getitem d1 w = Inr 0"
    by (simp add: d1 getitem_def update_conv')
  have u: "AList.update w (0 + 1) d1 = AList.update w 1 d"
    by (simp add: d1)
  have "dict_ok (AList.update w 1 d)"
    using assms(1) by (rule dict_ok_update) simp
  moreover have "sum_list (map snd (AList.update w 1 d)) = sum_list (map snd d) + 1"
    by (simp add: sum_values_update None)
  ultimately show ?thesis
    using g u by auto
next
  case (Some c)
  then have d1: "d1 = d"
    by (simp add: d1_def contains_def)
  have g: "getitem d1 w = Inr c"
    by (simp add: d1 getitem_def Some)
  have "0 < c"
    using assms(1) Some by (rule dict_ok_map_of_pos)
  then have "dict_ok (AList.update w (c + 1) d)"
    using assms(1) by (intro dict_ok_update) simp_all
  moreover have "sum_list (map snd (AList.update w (c + 1) d)) = sum_list (map snd d) + 1"
    by (simp add: sum_values_update Some)
  ultimately show ?thesis
    using g d1 by auto
qed

text \<open>One turn of the loop of \<open>remove_words\<close>.\<close>

lemma remove_word_step:
  fixes d :: dict and w :: token and c :: int
  assumes "dict_ok d" and "getitem d w = Inr c"
  defines "d1 \<equiv> AList.update w (c - 1) d"
  defines "d2 \<equiv> (if c - 1 = 0 then AList.delete w d1 else d1)"
  shows "dict_ok d2 \<and> sum_list (map snd d2) = sum_list (map snd d) - 1"
proof -
  from assms(2) have m: "map_of d w = Some c"
    by (simp add: getitem_def split: option.splits)
  have pos: "0 < c"
    using assms(1) m by (rule dict_ok_map_of_pos)
  have dist: "distinct (map fst d)"
    using assms(1) by (simp add: dict_ok_def)
  show ?thesis
  proof (cases "c - 1 = 0")
    case True
    then have d2: "d2 = AList.delete w d"
      by (simp add: d2_def d1_def delete_update_same)
    have "sum_list (map snd (AList.delete w d)) = sum_list (map snd d) - c"
      using dist m by (rule sum_values_delete)
    with True show ?thesis
      by (simp add: d2 dict_ok_delete [OF assms(1)])
  next
    case False
    then have d2: "d2 = AList.update w (c - 1) d"
      by (simp add: d2_def d1_def)
    have "dict_ok (AList.update w (c - 1) d)"
      using assms(1) pos False by (intro dict_ok_update) simp_all
    then show ?thesis
      by (simp add: d2 sum_values_update m)
  qed
qed

lemma add_words_ok:
  assumes "add_words n z ws = Inr n'" and "z < length n" and "dict_ok (n ! z)"
  shows "length n' = length n \<and> dict_ok (n' ! z)
       \<and> sum_list (map snd (n' ! z)) = sum_list (map snd (n ! z)) + int (length ws)
       \<and> (\<forall>y. y \<noteq> z \<longrightarrow> n' ! y = n ! y)"
  using assms
proof (induction ws arbitrary: n)
  case Nil
  then show ?case by simp
next
  case (Cons w ws)
  let ?d1 = "if contains (n ! z) w then n ! z else AList.update w 0 (n ! z)"
  from add_word_step [OF Cons.prems(3), of w]
  obtain c where c: "getitem ?d1 w = Inr c" and ok: "dict_ok (AList.update w (c + 1) ?d1)"
    and s: "sum_list (map snd (AList.update w (c + 1) ?d1)) = sum_list (map snd (n ! z)) + 1"
    by blast
  let ?n1 = "n[z := AList.update w (c + 1) ?d1]"
  from Cons.prems(1,2) c have r: "add_words ?n1 z ws = Inr n'"
    by (simp add: Let_def)
  have "length n' = length ?n1 \<and> dict_ok (n' ! z)
       \<and> sum_list (map snd (n' ! z)) = sum_list (map snd (?n1 ! z)) + int (length ws)
       \<and> (\<forall>y. y \<noteq> z \<longrightarrow> n' ! y = ?n1 ! y)"
    using r Cons.prems(2) ok by (intro Cons.IH) simp_all
  with Cons.prems(2) s show ?case
    by simp
qed

lemma remove_words_ok:
  assumes "remove_words n z ws = Inr n'" and "z < length n" and "dict_ok (n ! z)"
  shows "length n' = length n \<and> dict_ok (n' ! z)
       \<and> sum_list (map snd (n' ! z)) = sum_list (map snd (n ! z)) - int (length ws)
       \<and> (\<forall>y. y \<noteq> z \<longrightarrow> n' ! y = n ! y)"
  using assms
proof (induction ws arbitrary: n)
  case Nil
  then show ?case by simp
next
  case (Cons w ws)
  from Cons.prems(1,2) obtain c where c: "getitem (n ! z) w = Inr c"
    by (auto split: sum.splits)
  let ?d1 = "AList.update w (c - 1) (n ! z)"
  let ?d2 = "if c - 1 = 0 then AList.delete w ?d1 else ?d1"
  note st = remove_word_step [OF Cons.prems(3) c]
  let ?n1 = "n[z := ?d2]"
  from Cons.prems(1,2) c have r: "remove_words ?n1 z ws = Inr n'"
    by (simp add: Let_def)
  have "length n' = length ?n1 \<and> dict_ok (n' ! z)
       \<and> sum_list (map snd (n' ! z)) = sum_list (map snd (?n1 ! z)) - int (length ws)
       \<and> (\<forall>y. y \<noteq> z \<longrightarrow> n' ! y = ?n1 ! y)"
    using r Cons.prems(2) st by (intro Cons.IH) simp_all
  with Cons.prems(2) st show ?case
    by simp
qed

lemma add_doc_fields:
  assumes "add_doc m z doc = Inr m'"
  shows "K m' = K m \<and> alpha m' = alpha m \<and> beta m' = beta m \<and> n_iters m' = n_iters m
       \<and> number_docs m' = number_docs m \<and> vocab_size m' = vocab_size m
       \<and> sum_list (cluster_doc_count m') = sum_list (cluster_doc_count m) + 1"
  using assms
  by (auto simp: add_doc_def sum_list_update_int split: if_splits sum.splits)

lemma remove_doc_fields:
  assumes "remove_doc m z doc = Inr m'"
  shows "K m' = K m \<and> alpha m' = alpha m \<and> beta m' = beta m \<and> n_iters m' = n_iters m
       \<and> number_docs m' = number_docs m \<and> vocab_size m' = vocab_size m
       \<and> sum_list (cluster_doc_count m') = sum_list (cluster_doc_count m) - 1"
  using assms
  by (auto simp: remove_doc_def sum_list_update_int split: if_splits sum.splits)

lemma add_doc_consistent:
  assumes "add_doc m z doc = Inr m'" and "consistent m"
  shows "consistent m'"
proof -
  from assms(1) obtain n' where z: "z < length (cluster_doc_count m)"
    and n': "add_words (cluster_word_distribution m) z doc = Inr n'"
    and m': "m' = m\<lparr>cluster_doc_count :=
                        (cluster_doc_count m)[z := cluster_doc_count m ! z + 1],
                      cluster_word_count :=
                        (cluster_word_count m)[z := cluster_word_count m ! z + int (length doc)],
                      cluster_word_distribution := n'\<rparr>"
    by (auto simp: add_doc_def split: if_splits sum.splits)
  from assms(2) z have zk: "z < nat (K m)" and zl: "z < length (cluster_word_distribution m)"
    and zc: "z < length (cluster_word_count m)"
    and ok: "dict_ok (cluster_word_distribution m ! z)"
    and cw: "cluster_word_count m ! z = sum_list (map snd (cluster_word_distribution m ! z))"
    by (simp_all add: consistent_def)
  note a = add_words_ok [OF n' zl ok]
  show ?thesis
    unfolding consistent_def
  proof (intro conjI allI impI)
    fix y assume y: "y < nat (K m')"
    show "cluster_word_count m' ! y = sum_list (map snd (cluster_word_distribution m' ! y))"
      using assms(2) a y zc cw by (cases "y = z") (simp_all add: m' consistent_def)
    show "dict_ok (cluster_word_distribution m' ! y)"
      using assms(2) a y by (cases "y = z") (simp_all add: m' consistent_def)
  qed (use assms(2) a in \<open>simp_all add: m' consistent_def\<close>)
qed

lemma remove_doc_consistent:
  assumes "remove_doc m z doc = Inr m'" and "consistent m"
  shows "consistent m'"
proof -
  from assms(1) obtain n' where z: "z < length (cluster_doc_count m)"
    and n': "remove_words (cluster_word_distribution m) z doc = Inr n'"
    and m': "m' = m\<lparr>cluster_doc_count :=
                        (cluster_doc_count m)[z := cluster_doc_count m ! z - 1],
                      cluster_word_count :=
                        (cluster_word_count m)[z := cluster_word_count m ! z - int (length doc)],
                      cluster_word_distribution := n'\<rparr>"
    by (auto simp: remove_doc_def split: if_splits sum.splits)
  from assms(2) z have zk: "z < nat (K m)" and zl: "z < length (cluster_word_distribution m)"
    and zc: "z < length (cluster_word_count m)"
    and ok: "dict_ok (cluster_word_distribution m ! z)"
    and cw: "cluster_word_count m ! z = sum_list (map snd (cluster_word_distribution m ! z))"
    by (simp_all add: consistent_def)
  note a = remove_words_ok [OF n' zl ok]
  show ?thesis
    unfolding consistent_def
  proof (intro conjI allI impI)
    fix y assume y: "y < nat (K m')"
    show "cluster_word_count m' ! y = sum_list (map snd (cluster_word_distribution m' ! y))"
      using assms(2) a y zc cw by (cases "y = z") (simp_all add: m' consistent_def)
    show "dict_ok (cluster_word_distribution m' ! y)"
      using assms(2) a y by (cases "y = z") (simp_all add: m' consistent_def)
  qed (use assms(2) a in \<open>simp_all add: m' consistent_def\<close>)
qed

lemma consistent_stats_ok:
  assumes "consistent m" and "sum_list (cluster_doc_count m) = D"
  shows "stats_ok D m"
  unfolding stats_ok_def
proof (intro conjI ballI)
  fix d wc assume "d \<in> set (cluster_word_distribution m)" and wc: "wc \<in> set d"
  then obtain z where "z < nat (K m)" and "d = cluster_word_distribution m ! z"
    using assms(1) by (auto simp: in_set_conv_nth consistent_def)
  with assms(1) have "dict_ok d" by (simp add: consistent_def)
  with wc show "0 < snd wc" by (simp add: dict_ok_def)
qed (use assms in \<open>simp_all add: consistent_def\<close>)

subsection \<open>Sweeps\<close>

lemma reassign_cases:
  assumes "reassign g s i doc tt = Inr (s', tt')"
  obtains m1 p z_new m2 where "i < length (d_z s)"
    and "remove_doc (model s) (d_z s ! i) doc = Inr m1"
    and "score m1 doc = Inr p"
    and "sample (g (draws s) p) = Inr z_new"
    and "add_doc m1 z_new doc = Inr m2"
    and "s' = s\<lparr>model := m2, d_z := (d_z s)[i := z_new], draws := Suc (draws s),
                 trace := trace s @ [m2]\<rparr>"
    and "tt' = (if z_new \<noteq> d_z s ! i then tt + 1 else tt)"
  using assms
  by (auto simp: reassign_def Let_def split: if_splits sum.splits)

lemma reassign_fields:
  assumes "reassign g s i doc tt = Inr (s', tt')"
  shows "K (model s') = K (model s) \<and> n_iters (model s') = n_iters (model s)
       \<and> number_docs (model s') = number_docs (model s)
       \<and> vocab_size (model s') = vocab_size (model s)
       \<and> sum_list (cluster_doc_count (model s')) = sum_list (cluster_doc_count (model s))
       \<and> stages s' = stages s \<and> converged s' = converged s
       \<and> length (d_z s') = length (d_z s) \<and> draws s' = Suc (draws s)
       \<and> trace s' = trace s @ [model s']"
  using assms
proof (rule reassign_cases)
  fix m1 p z_new m2
  assume "remove_doc (model s) (d_z s ! i) doc = Inr m1" and "add_doc m1 z_new doc = Inr m2"
    and "s' = s\<lparr>model := m2, d_z := (d_z s)[i := z_new], draws := Suc (draws s),
                 trace := trace s @ [m2]\<rparr>"
  then show ?thesis
    using remove_doc_fields [of "model s" "d_z s ! i" doc m1] add_doc_fields [of m1 z_new doc m2]
    by simp
qed

lemma reassign_ok:
  assumes "reassign g s i doc tt = Inr (s', tt')" and "run_ok D s"
  shows "run_ok D s'"
  using assms(1)
proof (rule reassign_cases)
  fix m1 p z_new m2
  assume r: "remove_doc (model s) (d_z s ! i) doc = Inr m1" and a: "add_doc m1 z_new doc = Inr m2"
    and s': "s' = s\<lparr>model := m2, d_z := (d_z s)[i := z_new], draws := Suc (draws s),
                 trace := trace s @ [m2]\<rparr>"
  have c: "consistent m2"
    using a remove_doc_consistent [OF r] assms(2) by (auto simp: run_ok_def intro: add_doc_consistent)
  have d: "sum_list (cluster_doc_count m2) = D"
    using remove_doc_fields [OF r] add_doc_fields [OF a] assms(2) by (simp add: run_ok_def)
  from c d have "stats_ok D m2" by (rule consistent_stats_ok)
  with c d assms(2) show ?thesis
    by (simp add: run_ok_def s')
qed

lemma sweep_loop_fields:
  assumes "sweep_loop g s i docs tt = Inr (s', tt')"
  shows "K (model s') = K (model s) \<and> n_iters (model s') = n_iters (model s)
       \<and> number_docs (model s') = number_docs (model s)
       \<and> vocab_size (model s') = vocab_size (model s)
       \<and> sum_list (cluster_doc_count (model s')) = sum_list (cluster_doc_count (model s))
       \<and> stages s' = stages s \<and> converged s' = converged s
       \<and> length (d_z s') = length (d_z s) \<and> draws s' = draws s + length docs
       \<and> length (trace s') = length (trace s) + length docs"
  using assms
proof (induction docs arbitrary: s i tt)
  case Nil
  then show ?case by simp
next
  case (Cons doc docs)
  from Cons.prems obtain s1 t1 where r: "reassign g s i doc tt = Inr (s1, t1)"
    and l: "sweep_loop g s1 (Suc i) docs t1 = Inr (s', tt')"
    by (auto split: sum.splits)
  from reassign_fields [OF r] Cons.IH [OF l] show ?case
    by simp
qed

lemma sweep_loop_ok:
  assumes "sweep_loop g s i docs tt = Inr (s', tt')" and "run_ok D s"
  shows "run_ok D s'"
  using assms
proof (induction docs arbitrary: s i tt)
  case Nil
  then show ?case by simp
next
  case (Cons doc docs)
  from Cons.prems(1) obtain s1 t1 where r: "reassign g s i doc tt = Inr (s1, t1)"
    and l: "sweep_loop g s1 (Suc i) docs t1 = Inr (s', tt')"
    by (auto split: sum.splits)
  from reassign_ok [OF r Cons.prems(2)] l show ?case
    by (rule Cons.IH [rotated])
qed

lemma run_ok_stages [simp]: "run_ok D (s\<lparr>stages := x\<rparr>) = run_ok D s"
  "run_ok D (s\<lparr>converged := y\<rparr>) = run_ok D s"
  by (simp_all add: run_ok_def)

lemma sweeps_cases:
  assumes "sweeps g docs s cc (iter # iters) = Inr r"
  obtains s' tt where "sweep_loop g s 0 docs 0 = Inr (s', tt)"
    and "tt = 0 \<and> int (populated (model s')) = cc \<and> 25 < iter \<Longrightarrow>
           r = s'\<lparr>stages := stages s' @ [(iter, tt, populated (model s'))], converged := True\<rparr>"
    and "\<not> (tt = 0 \<and> int (populated (model s')) = cc \<and> 25 < iter) \<Longrightarrow>
           sweeps g docs (s'\<lparr>stages := stages s' @ [(iter, tt, populated (model s'))]\<rparr>)
             (int (populated (model s'))) iters = Inr r"
  using assms
  by (auto simp: Let_def split: sum.splits if_splits)

lemma sweeps_ok:
  assumes "sweeps g docs s cc its = Inr r" and "run_ok D s"
  shows "run_ok D r"
  using assms
proof (induction its arbitrary: s cc)
  case Nil
  then show ?case by simp
next
  case (Cons iter iters)
  from Cons.prems(1) show ?case
  proof (rule sweeps_cases)
    fix s' tt
    assume l: "sweep_loop g s 0 docs 0 = Inr (s', tt)"
      and stop: "tt = 0 \<and> int (populated (model s')) = cc \<and> 25 < iter \<Longrightarrow>
           r = s'\<lparr>stages := stages s' @ [(iter, tt, populated (model s'))], converged := True\<rparr>"
      and go: "\<not> (tt = 0 \<and> int (populated (model s')) = cc \<and> 25 < iter) \<Longrightarrow>
           sweeps g docs (s'\<lparr>stages := stages s' @ [(iter, tt, populated (model s'))]\<rparr>)
             (int (populated (model s'))) iters = Inr r"
    have ok: "run_ok D s'"
      using l Cons.prems(2) by (rule sweep_loop_ok)
    show ?thesis
    proof (cases "tt = 0 \<and> int (populated (model s')) = cc \<and> 25 < iter")
      case True
      with stop ok show ?thesis by simp
    next
      case False
      from go [OF False] show ?thesis
        by (rule Cons.IH) (simp add: ok)
    qed
  qed
qed

lemma sweeps_fields:
  assumes "sweeps g docs s cc its = Inr r"
  shows "K (model r) = K (model s) \<and> n_iters (model r) = n_iters (model s)
       \<and> number_docs (model r) = number_docs (model s)
       \<and> vocab_size (model r) = vocab_size (model s)
       \<and> sum_list (cluster_doc_count (model r)) = sum_list (cluster_doc_count (model s))
       \<and> length (d_z r) = length (d_z s)
       \<and> length (stages s) \<le> length (stages r)
       \<and> length (trace r) =
           length (trace s) + length docs * (length (stages r) - length (stages s))"
  using assms
proof (induction its arbitrary: s cc)
  case Nil
  then show ?case by simp
next
  case (Cons iter iters)
  from Cons.prems(1) show ?case
  proof (rule sweeps_cases)
    fix s' tt
    assume l: "sweep_loop g s 0 docs 0 = Inr (s', tt)"
      and stop: "tt = 0 \<and> int (populated (model s')) = cc \<and> 25 < iter \<Longrightarrow>
           r = s'\<lparr>stages := stages s' @ [(iter, tt, populated (model s'))], converged := True\<rparr>"
      and go: "\<not> (tt = 0 \<and> int (populated (model s')) = cc \<and> 25 < iter) \<Longrightarrow>
           sweeps g docs (s'\<lparr>stages := stages s' @ [(iter, tt, populated (model s'))]\<rparr>)
             (int (populated (model s'))) iters = Inr r"
    note f = sweep_loop_fields [OF l]
    show ?thesis
    proof (cases "tt = 0 \<and> int (populated (model s')) = cc \<and> 25 < iter")
      case True
      with stop f show ?thesis by simp
    next
      case False
      let ?s = "s'\<lparr>stages := stages s' @ [(iter, tt, populated (model s'))]\<rparr>"
      note ih = Cons.IH [OF go [OF False]]
      from ih f have le: "Suc (length (stages s)) \<le> length (stages r)"
        by simp
      then have "length (stages r) - length (stages s)
                   = Suc (length (stages r) - Suc (length (stages s)))"
        by simp
      with ih f show ?thesis
        by simp
    qed
  qed
qed

lemma init_loop_fields:
  assumes "init_loop g s docs = Inr s'"
  shows "K (model s') = K (model s) \<and> n_iters (model s') = n_iters (model s)
       \<and> number_docs (model s') = number_docs (model s)
       \<and> vocab_size (model s') = vocab_size (model s)
       \<and> sum_list (cluster_doc_count (model s'))
           = sum_list (cluster_doc_count (model s)) + int (length docs)
       \<and> stages s' = stages s \<and> converged s' = converged s \<and> trace s' = trace s
       \<and> length (d_z s') = length (d_z s) + length docs
       \<and> draws s' = draws s + length docs"
  using assms
proof (induction docs arbitrary: s)
  case Nil
  then show ?case by simp
next
  case (Cons doc docs)
  from Cons.prems obtain z m where
    a: "add_doc (model s) z doc = Inr m"
    and l: "init_loop g (s\<lparr>model := m, d_z := d_z s @ [z], draws := Suc (draws s)\<rparr>) docs = Inr s'"
    by (auto split: sum.splits)
  from Cons.IH [OF l] add_doc_fields [OF a] show ?case
    by simp
qed

lemma init_loop_consistent:
  assumes "init_loop g s docs = Inr s'" and "consistent (model s)"
  shows "consistent (model s')"
  using assms
proof (induction docs arbitrary: s)
  case Nil
  then show ?case by simp
next
  case (Cons doc docs)
  from Cons.prems(1) obtain z m where
    a: "add_doc (model s) z doc = Inr m"
    and l: "init_loop g (s\<lparr>model := m, d_z := d_z s @ [z], draws := Suc (draws s)\<rparr>) docs = Inr s'"
    by (auto split: sum.splits)
  from add_doc_consistent [OF a Cons.prems(2)] show ?case
    by (intro Cons.IH [OF l]) simp
qed

lemma consistent_mgp_init:
  "consistent ((mgp_init k a b n)\<lparr>number_docs := D, vocab_size := V\<rparr>)"
  by (simp add: consistent_def mgp_init_def dict_ok_def)

lemma sum_list_replicate_zero: "sum_list (replicate j (0 :: int)) = 0"
  by (induction j) simp_all

lemma sum_mgp_init: "sum_list (cluster_doc_count (mgp_init k a b n)) = 0"
  by (simp add: mgp_init_def sum_list_replicate_zero)

lemma init_pass_fields:
  assumes "init_pass g m docs V = Inr s"
  shows "K (model s) = K m \<and> n_iters (model s) = n_iters m
       \<and> number_docs (model s) = Some (int (length docs)) \<and> vocab_size (model s) = Some V
       \<and> sum_list (cluster_doc_count (model s))
           = sum_list (cluster_doc_count m) + int (length docs)
       \<and> stages s = [] \<and> trace s = [] \<and> length (d_z s) = length docs
       \<and> draws s = length docs"
  using init_loop_fields [OF assms [unfolded init_pass_def]] by simp

lemma fit_cases:
  assumes "fit g m docs V = Inr r"
  obtains s where "init_pass g m docs V = Inr s"
    and "sweeps g docs s (K m) [0 ..< nat (n_iters m)] = Inr r"
  using assms by (auto simp: fit_def split: sum.splits)

lemma fit_fields:
  assumes "fit g m docs V = Inr r"
  shows "K (model r) = K m \<and> n_iters (model r) = n_iters m
       \<and> number_docs (model r) = Some (int (length docs)) \<and> vocab_size (model r) = Some V
       \<and> sum_list (cluster_doc_count (model r))
           = sum_list (cluster_doc_count m) + int (length docs)
       \<and> length (d_z r) = length docs
       \<and> length (trace r) = length docs * length (stages r)"
  using assms
proof (rule fit_cases)
  fix s assume i: "init_pass g m docs V = Inr s"
    and w: "sweeps g docs s (K m) [0 ..< nat (n_iters m)] = Inr r"
  from init_pass_fields [OF i] sweeps_fields [OF w] show ?thesis
    by simp
qed

text \<open>
  Claim C1. In a run of \<open>fit\<close> on a freshly constructed model, the statistics after
  every reassignment of a document in every sweep (the entries of the trace, one per
  document and sweep) and the final statistics satisfy \<open>stats_ok\<close>: the document counts
  sum to the number of documents, each word count is the sum of the values of its table,
  and no token has a count that is not positive.
\<close>

theorem fit_invariants:
  assumes "fit g (mgp_init k a b n) docs V = Inr r"
  shows "(\<forall>t \<in> set (trace r). stats_ok (int (length docs)) t)
       \<and> length (trace r) = length docs * length (stages r)
       \<and> stats_ok (int (length docs)) (model r)"
  using assms
proof (rule fit_cases)
  fix s assume i: "init_pass g (mgp_init k a b n) docs V = Inr s"
    and w: "sweeps g docs s (K (mgp_init k a b n)) [0 ..< nat (n_iters (mgp_init k a b n))] = Inr r"
  have "consistent (model s)"
    using i [unfolded init_pass_def] by (rule init_loop_consistent) (simp add: consistent_mgp_init)
  moreover have "sum_list (cluster_doc_count (model s)) = int (length docs)"
    using init_pass_fields [OF i] by (simp add: sum_mgp_init)
  moreover have "trace s = []"
    using init_pass_fields [OF i] by simp
  ultimately have "run_ok (int (length docs)) s"
    by (simp add: run_ok_def)
  with w have "run_ok (int (length docs)) r"
    by (rule sweeps_ok)
  then show ?thesis
    using fit_fields [OF assms] by (simp add: run_ok_def consistent_stats_ok)
qed

lemma sweeps_no_docs:
  assumes "sweeps g [] s cc its = Inr r"
  shows "model r = model s"
  using assms
proof (induction its arbitrary: s cc)
  case Nil
  then show ?case by simp
next
  case (Cons iter iters)
  from Cons.prems show ?case
  proof (rule sweeps_cases)
    fix s' tt
    assume l: "sweep_loop g s 0 [] 0 = Inr (s', tt)"
      and stop: "tt = 0 \<and> int (populated (model s')) = cc \<and> 25 < iter \<Longrightarrow>
           r = s'\<lparr>stages := stages s' @ [(iter, tt, populated (model s'))], converged := True\<rparr>"
      and go: "\<not> (tt = 0 \<and> int (populated (model s')) = cc \<and> 25 < iter) \<Longrightarrow>
           sweeps g [] (s'\<lparr>stages := stages s' @ [(iter, tt, populated (model s'))]\<rparr>)
             (int (populated (model s'))) iters = Inr r"
    from l have s': "s' = s" by simp
    show ?thesis
    proof (cases "tt = 0 \<and> int (populated (model s')) = cc \<and> 25 < iter")
      case True
      with stop s' show ?thesis by simp
    next
      case False
      from Cons.IH [OF go [OF False]] s' show ?thesis by simp
    qed
  qed
qed

lemma fit_no_docs:
  assumes "fit g (mgp_init k a b n) [] V = Inr r"
  shows "cluster_doc_count (model r) = replicate (nat k) 0
       \<and> cluster_word_count (model r) = replicate (nat k) 0
       \<and> cluster_word_distribution (model r) = replicate (nat k) []"
  using assms
proof (rule fit_cases)
  fix s assume i: "init_pass g (mgp_init k a b n) [] V = Inr s"
    and w: "sweeps g [] s (K (mgp_init k a b n)) [0 ..< nat (n_iters (mgp_init k a b n))] = Inr r"
  from i have "model s = (mgp_init k a b n)\<lparr>number_docs := Some 0, vocab_size := Some V\<rparr>"
    by (auto simp: init_pass_def)
  with sweeps_no_docs [OF w] show ?thesis
    by (simp add: mgp_init_def)
qed

text \<open>
  Claim C10. \<open>fit\<close> does not reset the statistics: after the initialisation pass, and
  after the whole of \<open>fit\<close>, the document counts sum to their sum at entry plus the
  number of documents. After a fit of a fresh model the sum is the number of documents. A
  second \<open>fit\<close> on the model that the first one leaves ends with the sum of both corpus
  sizes, while \<open>number_docs\<close> is the size of the second corpus: the invariant holds
  after the second fit only if the first corpus was empty, and then the first fit has
  left every count zero and every table empty.
\<close>

theorem fit_never_resets:
  "(init_pass g m docs V = Inr s \<longrightarrow>
      sum_list (cluster_doc_count (model s)) = sum_list (cluster_doc_count m) + int (length docs)
      \<and> number_docs (model s) = Some (int (length docs)))
   \<and> (fit g m docs V = Inr r \<longrightarrow>
      sum_list (cluster_doc_count (model r)) = sum_list (cluster_doc_count m) + int (length docs)
      \<and> number_docs (model r) = Some (int (length docs)))
   \<and> (fit g (mgp_init k a b n) docs V = Inr r \<longrightarrow>
      sum_list (cluster_doc_count (model r)) = int (length docs)
      \<and> (docs = [] \<longrightarrow>
           cluster_doc_count (model r) = replicate (nat k) 0
           \<and> cluster_word_count (model r) = replicate (nat k) 0
           \<and> cluster_word_distribution (model r) = replicate (nat k) [])
      \<and> (fit g' (model r) docs' V' = Inr r' \<longrightarrow>
           sum_list (cluster_doc_count (model r')) = int (length docs) + int (length docs')
           \<and> number_docs (model r') = Some (int (length docs'))
           \<and> (sum_list (cluster_doc_count (model r')) = int (length docs') \<longleftrightarrow> docs = [])))"
proof (intro conjI impI)
  assume "init_pass g m docs V = Inr s"
  from init_pass_fields [OF this]
  show "sum_list (cluster_doc_count (model s)) = sum_list (cluster_doc_count m) + int (length docs)"
    and "number_docs (model s) = Some (int (length docs))"
    by simp_all
next
  assume "fit g m docs V = Inr r"
  from fit_fields [OF this]
  show "sum_list (cluster_doc_count (model r)) = sum_list (cluster_doc_count m) + int (length docs)"
    and "number_docs (model r) = Some (int (length docs))"
    by simp_all
next
  assume f: "fit g (mgp_init k a b n) docs V = Inr r"
  from fit_fields [OF f]
  show 1: "sum_list (cluster_doc_count (model r)) = int (length docs)"
    by (simp add: sum_mgp_init)
  {
    assume "docs = []"
    with f fit_no_docs [of g k a b n V r]
    show "cluster_doc_count (model r) = replicate (nat k) 0"
      and "cluster_word_count (model r) = replicate (nat k) 0"
      and "cluster_word_distribution (model r) = replicate (nat k) []"
      by simp_all
  }
  assume "fit g' (model r) docs' V' = Inr r'"
  from fit_fields [OF this] 1
  show 2: "sum_list (cluster_doc_count (model r')) = int (length docs) + int (length docs')"
    and "number_docs (model r') = Some (int (length docs'))"
    by simp_all
  from 2 show "sum_list (cluster_doc_count (model r')) = int (length docs') \<longleftrightarrow> docs = []"
    by simp
qed

subsection \<open>A run on two documents\<close>

lemmas fit_eval = fit_def init_pass_def mgp_init_def reassign_def add_doc_def remove_doc_def
  sample_def score_def unnormalized_def score_label_def np_log_def dict_get_def getitem_def
  contains_def populated_def Let_def eval_nat_numeral

lemma fit_example:
  "\<exists>r. fit (\<lambda>n p. [[1, 0], [0, 1], [1, 0], [0, 1]] ! n) (mgp_init 2 1 1 1) [[''a''], [''b'']] 2 = Inr r
       \<and> d_z r = [0, 1] \<and> length (trace r) = 2 \<and> stages r = [(0, 0, 2)]
       \<and> cluster_doc_count (model r) = [1, 1]
       \<and> cluster_word_distribution (model r) = [[(''a'', 1)], [(''b'', 1)]]"
  by (simp add: fit_eval)


lemma fit_twice_example:
  "\<exists>r r'. fit (\<lambda>n p. [[1, 0], [0, 1], [1, 0], [0, 1]] ! n) (mgp_init 2 1 1 1) [[''a''], [''b'']] 2 = Inr r
       \<and> fit (\<lambda>n p. [[1, 0], [0, 1], [1, 0], [0, 1]] ! n) (model r) [[''a''], [''b'']] 2 = Inr r'
       \<and> cluster_doc_count (model r') = [2, 2]"
  by (simp add: fit_eval)

theorem fit_invariants_witness:
  "\<exists>r. fit (\<lambda>n p. [[1, 0], [0, 1], [1, 0], [0, 1]] ! n) (mgp_init 2 1 1 1) [[''a''], [''b'']] 2 = Inr r
       \<and> length (trace r) = 2 \<and> stats_ok 2 (trace r ! 0) \<and> stats_ok 2 (trace r ! 1)
       \<and> stats_ok 2 (model r)"
proof -
  from fit_example obtain r where
    r: "fit (\<lambda>n p. [[1, 0], [0, 1], [1, 0], [0, 1]] ! n) (mgp_init 2 1 1 1) [[''a''], [''b'']] 2 = Inr r"
    and l: "length (trace r) = 2"
    by blast
  from fit_invariants [OF r] have a: "\<forall>t \<in> set (trace r). stats_ok 2 t" and m: "stats_ok 2 (model r)"
    by simp_all
  from l have "trace r ! 0 \<in> set (trace r)" and "trace r ! 1 \<in> set (trace r)"
    by simp_all
  with a have "stats_ok 2 (trace r ! 0)" and "stats_ok 2 (trace r ! 1)"
    by blast+
  with r l m show ?thesis
    by blast
qed

theorem fit_never_resets_witness:
  "\<exists>r r'. fit (\<lambda>n p. [[1, 0], [0, 1], [1, 0], [0, 1]] ! n) (mgp_init 2 1 1 1) [[''a''], [''b'']] 2 = Inr r
       \<and> sum_list (cluster_doc_count (model r)) = 2
       \<and> fit (\<lambda>n p. [[1, 0], [0, 1], [1, 0], [0, 1]] ! n) (model r) [[''a''], [''b'']] 2 = Inr r'
       \<and> sum_list (cluster_doc_count (model r')) = 4
       \<and> number_docs (model r') = Some 2"
proof -
  let ?g = "\<lambda>(n :: nat) (p :: real list). [[1, 0], [0, 1], [1, 0], [0, 1 :: int]] ! n"
  from fit_twice_example obtain r r' where
    r: "fit ?g (mgp_init 2 1 1 1) [[''a''], [''b'']] 2 = Inr r"
    and r': "fit ?g (model r) [[''a''], [''b'']] 2 = Inr r'"
    by blast
  from fit_never_resets [of ?g "mgp_init 2 1 1 1" "[[''a''], [''b'']]" 2 r r 2 1 1 1 ?g
      "[[''a''], [''b'']]" 2 r'] r r'
  have "sum_list (cluster_doc_count (model r)) = 2"
    and "sum_list (cluster_doc_count (model r')) = 4"
    and "number_docs (model r') = Some 2"
    by simp_all
  with r r' show ?thesis
    by blast
qed

subsection \<open>Determinism\<close>

lemma same_draws_mono: "same_draws n g1 g2 \<Longrightarrow> k \<le> n \<Longrightarrow> same_draws k g1 g2"
  by (simp add: same_draws_def)

lemma same_draws_at: "same_draws n g1 g2 \<Longrightarrow> i < n \<Longrightarrow> g2 i p = g1 i p"
  by (simp add: same_draws_def)

lemma reassign_same_draws:
  assumes "reassign g1 s i doc tt = Inr (s', tt')" and "same_draws (draws s') g1 g2"
  shows "reassign g2 s i doc tt = Inr (s', tt')"
proof -
  have d: "draws s' = Suc (draws s)"
    using reassign_fields [OF assms(1)] by simp
  have "g2 (draws s) p = g1 (draws s) p" for p
    using assms(2) by (rule same_draws_at) (simp add: d)
  then have e: "g2 (draws s) = g1 (draws s)"
    by (rule ext)
  have "reassign g2 s i doc tt = reassign g1 s i doc tt"
    unfolding reassign_def e by (rule refl)
  with assms(1) show ?thesis
    by simp
qed

lemma sweep_loop_same_draws:
  assumes "sweep_loop g1 s i docs tt = Inr (s', tt')" and "same_draws (draws s') g1 g2"
  shows "sweep_loop g2 s i docs tt = Inr (s', tt')"
  using assms
proof (induction docs arbitrary: s i tt)
  case Nil
  then show ?case by simp
next
  case (Cons doc docs)
  from Cons.prems(1) obtain s1 t1 where r: "reassign g1 s i doc tt = Inr (s1, t1)"
    and l: "sweep_loop g1 s1 (Suc i) docs t1 = Inr (s', tt')"
    by (auto split: sum.splits)
  have "draws s1 \<le> draws s'"
    using sweep_loop_fields [OF l] by simp
  with Cons.prems(2) have "same_draws (draws s1) g1 g2"
    by (rule same_draws_mono)
  with r have "reassign g2 s i doc tt = Inr (s1, t1)"
    by (rule reassign_same_draws)
  moreover have "sweep_loop g2 s1 (Suc i) docs t1 = Inr (s', tt')"
    using l Cons.prems(2) by (rule Cons.IH)
  ultimately show ?case
    by simp
qed

lemma sweeps_draws_mono:
  assumes "sweeps g docs s cc its = Inr r"
  shows "draws s \<le> draws r"
  using assms
proof (induction its arbitrary: s cc)
  case Nil
  then show ?case by simp
next
  case (Cons iter iters)
  from Cons.prems show ?case
  proof (rule sweeps_cases)
    fix s' tt
    assume l: "sweep_loop g s 0 docs 0 = Inr (s', tt)"
      and stop: "tt = 0 \<and> int (populated (model s')) = cc \<and> 25 < iter \<Longrightarrow>
           r = s'\<lparr>stages := stages s' @ [(iter, tt, populated (model s'))], converged := True\<rparr>"
      and go: "\<not> (tt = 0 \<and> int (populated (model s')) = cc \<and> 25 < iter) \<Longrightarrow>
           sweeps g docs (s'\<lparr>stages := stages s' @ [(iter, tt, populated (model s'))]\<rparr>)
             (int (populated (model s'))) iters = Inr r"
    note f = sweep_loop_fields [OF l]
    show ?thesis
    proof (cases "tt = 0 \<and> int (populated (model s')) = cc \<and> 25 < iter")
      case True
      with stop f show ?thesis by simp
    next
      case False
      from Cons.IH [OF go [OF False]] f show ?thesis by simp
    qed
  qed
qed

lemma sweeps_same_draws:
  assumes "sweeps g1 docs s cc its = Inr r" and "same_draws (draws r) g1 g2"
  shows "sweeps g2 docs s cc its = Inr r"
  using assms
proof (induction its arbitrary: s cc)
  case Nil
  then show ?case by simp
next
  case (Cons iter iters)
  from Cons.prems(1) show ?case
  proof (rule sweeps_cases)
    fix s' tt
    assume l: "sweep_loop g1 s 0 docs 0 = Inr (s', tt)"
      and stop: "tt = 0 \<and> int (populated (model s')) = cc \<and> 25 < iter \<Longrightarrow>
           r = s'\<lparr>stages := stages s' @ [(iter, tt, populated (model s'))], converged := True\<rparr>"
      and go: "\<not> (tt = 0 \<and> int (populated (model s')) = cc \<and> 25 < iter) \<Longrightarrow>
           sweeps g1 docs (s'\<lparr>stages := stages s' @ [(iter, tt, populated (model s'))]\<rparr>)
             (int (populated (model s'))) iters = Inr r"
    show ?thesis
    proof (cases "tt = 0 \<and> int (populated (model s')) = cc \<and> 25 < iter")
      case True
      from stop [OF True] have "draws s' = draws r" by simp
      with Cons.prems(2) have "same_draws (draws s') g1 g2" by simp
      with l have "sweep_loop g2 s 0 docs 0 = Inr (s', tt)"
        by (rule sweep_loop_same_draws)
      with True stop show ?thesis by simp
    next
      case False
      let ?s = "s'\<lparr>stages := stages s' @ [(iter, tt, populated (model s'))]\<rparr>"
      have "draws s' \<le> draws r"
        using sweeps_draws_mono [OF go [OF False]] by simp
      with Cons.prems(2) have "same_draws (draws s') g1 g2"
        by (rule same_draws_mono)
      with l have "sweep_loop g2 s 0 docs 0 = Inr (s', tt)"
        by (rule sweep_loop_same_draws)
      moreover have "sweeps g2 docs ?s (int (populated (model s'))) iters = Inr r"
        using go [OF False] Cons.prems(2) by (rule Cons.IH)
      ultimately show ?thesis
        using False by (auto simp: Let_def)
    qed
  qed
qed

lemma init_loop_same_draws:
  assumes "init_loop g1 s docs = Inr s'" and "same_draws (draws s') g1 g2"
  shows "init_loop g2 s docs = Inr s'"
  using assms
proof (induction docs arbitrary: s)
  case Nil
  then show ?case by simp
next
  case (Cons doc docs)
  from Cons.prems(1) obtain z m where
    z: "sample (g1 (draws s) (replicate (nat (K (model s))) (1 / of_int (K (model s))))) = Inr z"
    and a: "add_doc (model s) z doc = Inr m"
    and l: "init_loop g1 (s\<lparr>model := m, d_z := d_z s @ [z], draws := Suc (draws s)\<rparr>) docs = Inr s'"
    by (auto split: sum.splits)
  have "draws s < draws s'"
    using init_loop_fields [OF l] by simp
  with Cons.prems(2) have "g2 (draws s) p = g1 (draws s) p" for p
    by (rule same_draws_at)
  moreover have "init_loop g2 (s\<lparr>model := m, d_z := d_z s @ [z], draws := Suc (draws s)\<rparr>) docs = Inr s'"
    using l Cons.prems(2) by (rule Cons.IH)
  ultimately show ?case
    using z a by simp
qed

text \<open>
  Claim C8. If a run of \<open>fit\<close> returns \<open>r\<close>, having made \<open>draws r\<close> draws, then a
  run on the same model, corpus and vocabulary size with a random source that returns the
  same vectors on these draws returns the same \<open>r\<close>: the same labels and the same final
  statistics.
\<close>

theorem fit_deterministic:
  assumes "fit g1 m docs V = Inr r" and "\<forall>i < draws r. \<forall>p. g2 i p = g1 i p"
  shows "fit g2 m docs V = Inr r"
  using assms(1)
proof (rule fit_cases)
  fix s assume i: "init_pass g1 m docs V = Inr s"
    and w: "sweeps g1 docs s (K m) [0 ..< nat (n_iters m)] = Inr r"
  have sd: "same_draws (draws r) g1 g2"
    using assms(2) by (simp add: same_draws_def)
  have "draws s \<le> draws r"
    using w by (rule sweeps_draws_mono)
  with sd have "same_draws (draws s) g1 g2"
    by (rule same_draws_mono)
  with i have "init_pass g2 m docs V = Inr s"
    unfolding init_pass_def by (rule init_loop_same_draws)
  moreover have "sweeps g2 docs s (K m) [0 ..< nat (n_iters m)] = Inr r"
    using w sd by (rule sweeps_same_draws)
  ultimately show ?thesis
    by (simp add: fit_def)
qed

lemma fit_example_draws:
  "\<exists>r. fit (\<lambda>n p. [[1, 0], [0, 1], [1, 0], [0, 1]] ! n) (mgp_init 2 1 1 1) [[''a''], [''b'']] 2 = Inr r
       \<and> draws r = 4 \<and> d_z r = [0, 1]"
  by (simp add: fit_eval)

theorem fit_deterministic_witness:
  "\<exists>r. fit (\<lambda>n p. [[1, 0], [0, 1], [1, 0], [0, 1]] ! n) (mgp_init 2 1 1 1) [[''a''], [''b'']] 2 = Inr r
       \<and> fit (\<lambda>n p. if n < 4 then [[1, 0], [0, 1], [1, 0], [0, 1]] ! n else [0, 0])
            (mgp_init 2 1 1 1) [[''a''], [''b'']] 2 = Inr r
       \<and> d_z r = [0, 1]"
proof -
  let ?g1 = "\<lambda>(n :: nat) (p :: real list). [[1, 0], [0, 1], [1, 0], [0, 1 :: int]] ! n"
  let ?g2 = "\<lambda>(n :: nat) (p :: real list).
               if n < 4 then [[1, 0], [0, 1], [1, 0], [0, 1 :: int]] ! n else [0, 0]"
  from fit_example_draws obtain r where
    r: "fit ?g1 (mgp_init 2 1 1 1) [[''a''], [''b'']] 2 = Inr r" and d: "draws r = 4"
    and l: "d_z r = [0, 1]"
    by blast
  have "\<forall>i < draws r. \<forall>p. ?g2 i p = ?g1 i p"
    by (simp add: d)
  with r have "fit ?g2 (mgp_init 2 1 1 1) [[''a''], [''b'']] 2 = Inr r"
    by (rule fit_deterministic)
  with r l show ?thesis
    by blast
qed

subsection \<open>The convergence rule\<close>

lemma count_before_Cons:
  "count_before cc (st # new) (Suc j) = count_before (int (snd (snd st))) new j"
  by (cases j) (simp_all add: count_before_def)

lemma sweeps_stages:
  assumes "sweeps g docs s cc its = Inr r" and "\<not> converged s"
  shows "\<exists>new. stages r = stages s @ new \<and> length new \<le> length its
           \<and> map fst new = take (length new) its
           \<and> (converged r \<longrightarrow> new \<noteq> [])
           \<and> (\<not> converged r \<longrightarrow> length new = length its)
           \<and> (\<forall>i < length new.
                 stop_rule (count_before cc new i) (new ! i)
                 \<longleftrightarrow> converged r \<and> Suc i = length new)"
  using assms
proof (induction its arbitrary: s cc)
  case Nil
  then show ?case by simp
next
  case (Cons iter iters)
  from Cons.prems(1) show ?case
  proof (rule sweeps_cases)
    fix s' tt
    assume l: "sweep_loop g s 0 docs 0 = Inr (s', tt)"
      and stop: "tt = 0 \<and> int (populated (model s')) = cc \<and> 25 < iter \<Longrightarrow>
           r = s'\<lparr>stages := stages s' @ [(iter, tt, populated (model s'))], converged := True\<rparr>"
      and go: "\<not> (tt = 0 \<and> int (populated (model s')) = cc \<and> 25 < iter) \<Longrightarrow>
           sweeps g docs (s'\<lparr>stages := stages s' @ [(iter, tt, populated (model s'))]\<rparr>)
             (int (populated (model s'))) iters = Inr r"
    note f = sweep_loop_fields [OF l]
    let ?st = "(iter, tt, populated (model s'))"
    show ?thesis
    proof (cases "tt = 0 \<and> int (populated (model s')) = cc \<and> 25 < iter")
      case True
      have "stages r = stages s @ [?st]" and "converged r"
        using stop [OF True] f by simp_all
      moreover have "stop_rule (count_before cc [?st] 0) ([?st] ! 0)"
        using True by (simp add: stop_rule_def count_before_def)
      ultimately show ?thesis
        by (intro exI [of _ "[?st]"]) simp
    next
      case False
      let ?s = "s'\<lparr>stages := stages s' @ [?st]\<rparr>"
      have "\<not> converged ?s"
        using f Cons.prems(2) by simp
      from Cons.IH [OF go [OF False] this] obtain new where
        n1: "stages r = stages ?s @ new" and n2: "length new \<le> length iters"
        and n3: "map fst new = take (length new) iters"
        and n4: "converged r \<longrightarrow> new \<noteq> []"
        and n5: "\<not> converged r \<longrightarrow> length new = length iters"
        and n6: "\<forall>i < length new.
                 stop_rule (count_before (int (populated (model s'))) new i) (new ! i)
                 \<longleftrightarrow> converged r \<and> Suc i = length new"
        by blast
      have ns: "\<not> stop_rule cc ?st"
        using False by (simp add: stop_rule_def)
      have "stop_rule (count_before cc (?st # new) i) ((?st # new) ! i)
              \<longleftrightarrow> converged r \<and> Suc i = length (?st # new)"
        if "i < length (?st # new)" for i
      proof (cases i)
        case 0
        with ns n4 show ?thesis
          by (auto simp: count_before_def)
      next
        case (Suc j)
        with that n6 show ?thesis
          by (simp add: count_before_Cons)
      qed
      with n1 n2 n3 n4 n5 f show ?thesis
        by (intro exI [of _ "?st # new"]) simp
    qed
  qed
qed

lemma sweep_loop_trace:
  assumes "sweep_loop g s i docs tt = Inr (s', tt')"
  shows "\<exists>ext. trace s' = trace s @ ext \<and> length ext = length docs
           \<and> (docs \<noteq> [] \<longrightarrow> last ext = model s')"
  using assms
proof (induction docs arbitrary: s i tt)
  case Nil
  then show ?case by simp
next
  case (Cons doc docs)
  from Cons.prems obtain s1 t1 where r: "reassign g s i doc tt = Inr (s1, t1)"
    and l: "sweep_loop g s1 (Suc i) docs t1 = Inr (s', tt')"
    by (auto split: sum.splits)
  from reassign_fields [OF r] have t1: "trace s1 = trace s @ [model s1]"
    by simp
  from Cons.IH [OF l] obtain ext where e: "trace s' = trace s1 @ ext" "length ext = length docs"
    "docs \<noteq> [] \<longrightarrow> last ext = model s'"
    by blast
  have "docs = [] \<Longrightarrow> s' = s1"
    using l by simp
  with e t1 show ?case
    by (intro exI [of _ "model s1 # ext"]) auto
qed

lemma sweeps_stage_counts:
  assumes "sweeps g docs s cc its = Inr r" and "docs \<noteq> []"
  shows "\<exists>new ext. stages r = stages s @ new \<and> trace r = trace s @ ext
           \<and> (\<forall>j < length new.
                 snd (snd (new ! j)) = populated (ext ! (Suc j * length docs - 1)))"
  using assms(1)
proof (induction its arbitrary: s cc)
  case Nil
  then show ?case by simp
next
  case (Cons iter iters)
  from Cons.prems(1) show ?case
  proof (rule sweeps_cases)
    fix s' tt
    assume l: "sweep_loop g s 0 docs 0 = Inr (s', tt)"
      and stop: "tt = 0 \<and> int (populated (model s')) = cc \<and> 25 < iter \<Longrightarrow>
           r = s'\<lparr>stages := stages s' @ [(iter, tt, populated (model s'))], converged := True\<rparr>"
      and go: "\<not> (tt = 0 \<and> int (populated (model s')) = cc \<and> 25 < iter) \<Longrightarrow>
           sweeps g docs (s'\<lparr>stages := stages s' @ [(iter, tt, populated (model s'))]\<rparr>)
             (int (populated (model s'))) iters = Inr r"
    note f = sweep_loop_fields [OF l]
    let ?st = "(iter, tt, populated (model s'))"
    let ?D = "length docs"
    have D: "0 < ?D" using assms(2) by simp
    from sweep_loop_trace [OF l] assms(2) obtain e1 where e1: "trace s' = trace s @ e1"
      and le1: "length e1 = ?D" and la: "last e1 = model s'"
      by blast
    have ne: "e1 \<noteq> []" using le1 D by auto
    have at: "e1 ! (?D - 1) = model s'"
      using la ne le1 by (simp add: last_conv_nth)
    show ?thesis
    proof (cases "tt = 0 \<and> int (populated (model s')) = cc \<and> 25 < iter")
      case True
      have "stages r = stages s @ [?st]" and "trace r = trace s @ e1"
        using stop [OF True] f e1 by simp_all
      with at show ?thesis
        by (intro exI [of _ "[?st]"] exI [of _ e1]) simp
    next
      case False
      let ?s = "s'\<lparr>stages := stages s' @ [?st]\<rparr>"
      from Cons.IH [OF go [OF False]] obtain new ext where
        n1: "stages r = stages ?s @ new" and n2: "trace r = trace ?s @ ext"
        and n3: "\<forall>j < length new.
                 snd (snd (new ! j)) = populated (ext ! (Suc j * ?D - 1))"
        by blast
      have "snd (snd ((?st # new) ! j)) = populated ((e1 @ ext) ! (Suc j * ?D - 1))"
        if "j < length (?st # new)" for j
      proof (cases j)
        case 0
        with at le1 D show ?thesis
          by (simp add: nth_append)
      next
        case (Suc k)
        have "Suc (Suc k) * ?D - 1 = ?D + (Suc k * ?D - 1)"
          using D by (cases ?D) simp_all
        then have "(e1 @ ext) ! (Suc (Suc k) * ?D - 1) = ext ! (Suc k * ?D - 1)"
          using le1 by (simp only: nth_append_length_plus [of e1 ext, unfolded le1])
        with Suc that n3 show ?thesis
          by simp
      qed
      with n1 n2 f e1 show ?thesis
        by (intro exI [of _ "?st # new"] exI [of _ "e1 @ ext"]) simp
    qed
  qed
qed

text \<open>
  Claim C4. A run of \<open>fit\<close> makes at most \<open>n_iters\<close> sweeps, numbered from 0. The
  rule (no transfer, as many populated clusters as before the sweep, sweep index above 25)
  holds at the end of a sweep exactly when that sweep is the last one and the loop was
  left by \<open>break\<close>; fewer than \<open>n_iters\<close> sweeps run exactly when the rule holds at
  the end of a sweep that is not sweep \<open>n_iters - 1\<close>; so at least \<open>min(n_iters, 27)\<close>
  sweeps run. The count printed for a sweep is the number of populated clusters of the
  statistics at the end of that sweep.
\<close>

theorem fit_convergence_rule:
  assumes "fit g m docs V = Inr r"
  shows "length (stages r) \<le> nat (n_iters m)
       \<and> map fst (stages r) = [0 ..< length (stages r)]
       \<and> (\<forall>i < length (stages r).
             stop_rule (count_before (K m) (stages r) i) (stages r ! i)
             \<longleftrightarrow> converged r \<and> Suc i = length (stages r))
       \<and> (length (stages r) < nat (n_iters m)
            \<longleftrightarrow> (\<exists>i < length (stages r). Suc i < nat (n_iters m)
                   \<and> stop_rule (count_before (K m) (stages r) i) (stages r ! i)))
       \<and> min (nat (n_iters m)) 27 \<le> length (stages r)
       \<and> (docs \<noteq> [] \<longrightarrow>
            (\<forall>i < length (stages r).
               snd (snd (stages r ! i)) = populated (trace r ! (Suc i * length docs - 1))))"
  using assms
proof (rule fit_cases)
  fix s assume i: "init_pass g m docs V = Inr s"
    and w: "sweeps g docs s (K m) [0 ..< nat (n_iters m)] = Inr r"
  let ?n = "nat (n_iters m)"
  let ?sts = "stages r"
  have s0: "stages s = []" "trace s = []"
    using init_pass_fields [OF i] by simp_all
  have nc: "\<not> converged s"
    using init_loop_fields [OF i [unfolded init_pass_def]] by simp
  from sweeps_stages [OF w nc] s0
  have a1: "length ?sts \<le> ?n"
    and a2: "map fst ?sts = take (length ?sts) [0 ..< ?n]"
    and a3: "converged r \<longrightarrow> ?sts \<noteq> []"
    and a4: "\<not> converged r \<longrightarrow> length ?sts = ?n"
    and a5: "\<forall>i < length ?sts.
               stop_rule (count_before (K m) ?sts i) (?sts ! i)
               \<longleftrightarrow> converged r \<and> Suc i = length ?sts"
    by auto
  have b2: "map fst ?sts = [0 ..< length ?sts]"
    using a1 a2 by (simp add: take_upt)
  have b4: "length ?sts < ?n
            \<longleftrightarrow> (\<exists>i < length ?sts. Suc i < ?n
                   \<and> stop_rule (count_before (K m) ?sts i) (?sts ! i))"
  proof
    assume lt: "length ?sts < ?n"
    with a4 have c: "converged r" by auto
    with a3 have "?sts \<noteq> []" by simp
    then obtain j where j: "length ?sts = Suc j"
      by (cases ?sts) simp_all
    with a5 c have "stop_rule (count_before (K m) ?sts j) (?sts ! j)"
      by simp
    with j lt show "\<exists>i < length ?sts. Suc i < ?n
                   \<and> stop_rule (count_before (K m) ?sts i) (?sts ! i)"
      by (intro exI [of _ j]) simp
  next
    assume "\<exists>i < length ?sts. Suc i < ?n
                   \<and> stop_rule (count_before (K m) ?sts i) (?sts ! i)"
    with a5 show "length ?sts < ?n"
      by auto
  qed
  have b5: "min ?n 27 \<le> length ?sts"
  proof (cases "length ?sts < ?n")
    case True
    with b4 obtain j where j: "j < length ?sts"
      and st: "stop_rule (count_before (K m) ?sts j) (?sts ! j)"
      by blast
    have "fst (?sts ! j) = j"
      using j b2 by (metis add_0 length_map nth_map nth_upt)
    with st have "25 < j"
      by (simp add: stop_rule_def split: prod.splits)
    with j show ?thesis by simp
  next
    case False
    then show ?thesis by simp
  qed
  have b6: "\<forall>i < length ?sts.
               snd (snd (?sts ! i)) = populated (trace r ! (Suc i * length docs - 1))"
    if "docs \<noteq> []"
    using sweeps_stage_counts [OF w that] s0 by simp
  from a1 b2 a5 b4 b5 b6 show ?thesis
    by blast
qed

lemma fit_example_stages:
  "\<exists>r. fit (\<lambda>n p. [1]) (mgp_init 1 1 1 30) [[''a'']] 1 = Inr r
       \<and> length (stages r) = 27 \<and> converged r \<and> stages r ! 26 = (26, 0, 1)"
  by (simp add: fit_eval)


theorem fit_convergence_rule_witness:
  "\<exists>r. fit (\<lambda>n p. [1]) (mgp_init 1 1 1 30) [[''a'']] 1 = Inr r
       \<and> length (stages r) = 27 \<and> converged r
       \<and> stop_rule (count_before 1 (stages r) 26) (stages r ! 26)
       \<and> length (stages r) < nat (n_iters (mgp_init 1 1 1 30))"
proof -
  from fit_example_stages obtain r where
    r: "fit (\<lambda>n p. [1]) (mgp_init 1 1 1 30) [[''a'']] 1 = Inr r"
    and l: "length (stages r) = 27" and c: "converged r"
    by blast
  from fit_convergence_rule [OF r]
  have "\<forall>i < length (stages r).
          stop_rule (count_before (K (mgp_init 1 1 1 30)) (stages r) i) (stages r ! i)
          \<longleftrightarrow> converged r \<and> Suc i = length (stages r)"
    by blast
  then have "stop_rule (count_before (K (mgp_init 1 1 1 30)) (stages r) 26) (stages r ! 26)
          \<longleftrightarrow> converged r \<and> Suc 26 = length (stages r)"
    by (rule allE [of _ 26]) (simp add: l)
  with l c have "stop_rule (count_before 1 (stages r) 26) (stages r ! 26)"
    by (simp add: mgp_init_def)
  moreover have "length (stages r) < nat (n_iters (mgp_init 1 1 1 30))"
    by (simp add: l mgp_init_def)
  ultimately show ?thesis
    using r l c by blast
qed

subsection \<open>Runs that return\<close>

lemma dict_get_update: "dict_get (AList.update k v d) w 0 = (if w = k then v else dict_get d w 0)"
  by (simp add: dict_get_def update_conv')

lemma dict_get_delete: "dict_get (AList.delete k d) w 0 = (if w = k then 0 else dict_get d w 0)"
  by (simp add: dict_get_def delete_conv')

lemma add_words_counts:
  assumes "z < length n"
  shows "\<exists>n'. add_words n z ws = Inr n'
           \<and> (\<forall>w. dict_get (n' ! z) w 0 = dict_get (n ! z) w 0 + int (count_list ws w))"
  using assms
proof (induction ws arbitrary: n)
  case Nil
  then show ?case by simp
next
  case (Cons x ws)
  let ?d1 = "if contains (n ! z) x then n ! z else AList.update x 0 (n ! z)"
  have "\<exists>c. getitem ?d1 x = Inr c \<and> c = dict_get (n ! z) x 0"
    by (auto simp: getitem_def contains_def dict_get_def update_conv' split: option.splits)
  then obtain c where c: "getitem ?d1 x = Inr c" and cv: "c = dict_get (n ! z) x 0"
    by blast
  let ?n1 = "n[z := AList.update x (c + 1) ?d1]"
  have l: "z < length ?n1" using Cons.prems by simp
  from Cons.IH [OF l] obtain n' where n': "add_words ?n1 z ws = Inr n'"
    and cnt: "\<forall>w. dict_get (n' ! z) w 0 = dict_get (?n1 ! z) w 0 + int (count_list ws w)"
    by blast
  have d1: "dict_get ?d1 w 0 = dict_get (n ! z) w 0" for w
  proof (cases "map_of (n ! z) x")
    case None
    then have "dict_get (n ! z) x 0 = 0" by (simp add: dict_get_def)
    with None show ?thesis by (simp add: contains_def dict_get_update)
  next
    case (Some a)
    then show ?thesis by (simp add: contains_def)
  qed
  have "add_words n z (x # ws) = Inr n'"
    using Cons.prems c n' by (simp add: Let_def)
  moreover have "dict_get (n' ! z) w 0 = dict_get (n ! z) w 0 + int (count_list (x # ws) w)" for w
  proof -
    have "?n1 ! z = AList.update x (c + 1) ?d1" using Cons.prems by simp
    with cnt have "dict_get (n' ! z) w 0
        = dict_get (AList.update x (c + 1) ?d1) w 0 + int (count_list ws w)"
      by simp
    also have "dict_get (AList.update x (c + 1) ?d1) w 0
        = (if w = x then c + 1 else dict_get ?d1 w 0)"
      by (rule dict_get_update)
    finally show ?thesis
      using cv d1 [of w] by simp
  qed
  ultimately show ?case
    by blast
qed

lemma remove_words_counts:
  assumes "z < length n" and "dict_ok (n ! z)"
    and "\<forall>w. int (count_list ws w) \<le> dict_get (n ! z) w 0"
  shows "\<exists>n'. remove_words n z ws = Inr n'
           \<and> (\<forall>w. dict_get (n' ! z) w 0 = dict_get (n ! z) w 0 - int (count_list ws w))"
  using assms
proof (induction ws arbitrary: n)
  case Nil
  then show ?case by simp
next
  case (Cons x ws)
  from Cons.prems(3) have "int (count_list (x # ws) x) \<le> dict_get (n ! z) x 0"
    by blast
  then have pos: "0 < dict_get (n ! z) x 0"
    by simp
  then obtain c where m: "map_of (n ! z) x = Some c"
    by (auto simp: dict_get_def split: option.splits)
  then have c: "getitem (n ! z) x = Inr c" and cv: "c = dict_get (n ! z) x 0"
    by (simp_all add: getitem_def dict_get_def)
  let ?d1 = "AList.update x (c - 1) (n ! z)"
  let ?d2 = "if c - 1 = 0 then AList.delete x ?d1 else ?d1"
  let ?n1 = "n[z := ?d2]"
  note st = remove_word_step [OF Cons.prems(2) c]
  have d2: "dict_get ?d2 w 0 = dict_get (n ! z) w 0 - (if w = x then 1 else 0)" for w
    using cv by (auto simp: dict_get_update dict_get_delete)
  have l: "z < length ?n1" using Cons.prems(1) by simp
  have nz: "?n1 ! z = ?d2" using Cons.prems(1) by simp
  have ok: "dict_ok (?n1 ! z)" unfolding nz using st by simp
  have le: "\<forall>w. int (count_list ws w) \<le> dict_get (?n1 ! z) w 0"
  proof
    fix w
    have "int (count_list (x # ws) w) \<le> dict_get (n ! z) w 0"
      using Cons.prems(3) by blast
    then show "int (count_list ws w) \<le> dict_get (?n1 ! z) w 0"
      unfolding nz d2 by (simp split: if_splits)
  qed
  from Cons.IH [OF l ok le] obtain n' where n': "remove_words ?n1 z ws = Inr n'"
    and cnt: "\<forall>w. dict_get (n' ! z) w 0 = dict_get (?n1 ! z) w 0 - int (count_list ws w)"
    by blast
  have "remove_words n z (x # ws) = Inr n'"
    using Cons.prems(1) c n' by (simp add: Let_def)
  moreover have "dict_get (n' ! z) w 0 = dict_get (n ! z) w 0 - int (count_list (x # ws) w)" for w
    using cnt [unfolded nz d2] by simp
  ultimately show ?case
    by blast
qed

lemma occ_insert:
  "occ (xs @ (z, d) # ys) z' w = occ (xs @ ys) z' w + (if z = z' then int (count_list d w) else 0)"
  by (simp add: occ_def)

lemma members_insert:
  "members (xs @ (z, d) # ys) z' = members (xs @ ys) z' + (if z = z' then 1 else 0)"
  by (simp add: members_def)

lemma occ_nonneg: "0 \<le> occ asg z w"
  unfolding occ_def by (rule sum_list_nonneg) auto

lemma members_nonneg: "0 \<le> members asg z"
  unfolding members_def by (rule sum_list_nonneg) auto

lemma add_doc_tracks:
  assumes "tracks m (xs @ ys)" and "z < nat (K m)"
  shows "\<exists>m'. add_doc m z doc = Inr m' \<and> tracks m' (xs @ (z, doc) # ys)"
proof -
  from assms have c: "consistent m" by (simp add: tracks_def)
  with assms(2) have l: "z < length (cluster_doc_count m)" "z < length (cluster_word_count m)"
    "z < length (cluster_word_distribution m)" and ok: "dict_ok (cluster_word_distribution m ! z)"
    by (simp_all add: consistent_def)
  from add_words_counts [OF l(3), of doc] obtain n' where
    n': "add_words (cluster_word_distribution m) z doc = Inr n'"
    and cnt: "\<forall>w. dict_get (n' ! z) w 0
                = dict_get (cluster_word_distribution m ! z) w 0 + int (count_list doc w)"
    by blast
  let ?m' = "m\<lparr>cluster_doc_count :=
                        (cluster_doc_count m)[z := cluster_doc_count m ! z + 1],
                      cluster_word_count :=
                        (cluster_word_count m)[z := cluster_word_count m ! z + int (length doc)],
                      cluster_word_distribution := n'\<rparr>"
  have a: "add_doc m z doc = Inr ?m'"
    using l n' by (simp add: add_doc_def)
  have c': "consistent ?m'"
    using a c by (rule add_doc_consistent)
  note other = add_words_ok [OF n' l(3) ok]
  have "cluster_doc_count ?m' ! y = members (xs @ (z, doc) # ys) y
        \<and> (\<forall>w. dict_get (cluster_word_distribution ?m' ! y) w 0 = occ (xs @ (z, doc) # ys) y w)"
    if y: "y < nat (K ?m')" for y
  proof (cases "y = z")
    case True
    with assms l cnt show ?thesis
      by (simp add: tracks_def occ_insert members_insert)
  next
    case False
    with assms l other y show ?thesis
      by (simp add: tracks_def occ_insert members_insert)
  qed
  with c' have "tracks ?m' (xs @ (z, doc) # ys)"
    unfolding tracks_def by blast
  with a show ?thesis
    by blast
qed

lemma remove_doc_tracks:
  assumes "tracks m (xs @ (z, doc) # ys)" and "z < nat (K m)"
  shows "\<exists>m'. remove_doc m z doc = Inr m' \<and> tracks m' (xs @ ys)"
proof -
  from assms have c: "consistent m" by (simp add: tracks_def)
  with assms(2) have l: "z < length (cluster_doc_count m)" "z < length (cluster_word_count m)"
    "z < length (cluster_word_distribution m)" and ok: "dict_ok (cluster_word_distribution m ! z)"
    by (simp_all add: consistent_def)
  have le: "\<forall>w. int (count_list doc w) \<le> dict_get (cluster_word_distribution m ! z) w 0"
  proof
    fix w
    have "dict_get (cluster_word_distribution m ! z) w 0 = occ (xs @ (z, doc) # ys) z w"
      using assms by (simp add: tracks_def)
    then show "int (count_list doc w) \<le> dict_get (cluster_word_distribution m ! z) w 0"
      using occ_nonneg [of "xs @ ys" z w] by (simp add: occ_insert)
  qed
  from remove_words_counts [OF l(3) ok le] obtain n' where
    n': "remove_words (cluster_word_distribution m) z doc = Inr n'"
    and cnt: "\<forall>w. dict_get (n' ! z) w 0
                = dict_get (cluster_word_distribution m ! z) w 0 - int (count_list doc w)"
    by blast
  let ?m' = "m\<lparr>cluster_doc_count :=
                        (cluster_doc_count m)[z := cluster_doc_count m ! z - 1],
                      cluster_word_count :=
                        (cluster_word_count m)[z := cluster_word_count m ! z - int (length doc)],
                      cluster_word_distribution := n'\<rparr>"
  have a: "remove_doc m z doc = Inr ?m'"
    using l n' by (simp add: remove_doc_def)
  have c': "consistent ?m'"
    using a c by (rule remove_doc_consistent)
  note other = remove_words_ok [OF n' l(3) ok]
  have "cluster_doc_count ?m' ! y = members (xs @ ys) y
        \<and> (\<forall>w. dict_get (cluster_word_distribution ?m' ! y) w 0 = occ (xs @ ys) y w)"
    if y: "y < nat (K ?m')" for y
  proof (cases "y = z")
    case True
    with assms l cnt show ?thesis
      by (simp add: tracks_def occ_insert members_insert)
  next
    case False
    with assms l other y show ?thesis
      by (simp add: tracks_def occ_insert members_insert)
  qed
  with c' have "tracks ?m' (xs @ ys)"
    unfolding tracks_def by blast
  with a show ?thesis
    by blast
qed

lemma sample_valid:
  assumes "valid_rng g" and "p \<noteq> []"
  shows "\<exists>z < length p. sample (g n p) = Inr z"
proof -
  let ?v = "g n p"
  from assms have len: "length ?v = length p" and ex: "\<exists>i < length p. ?v ! i \<noteq> 0"
    by (simp_all add: valid_rng_def)
  let ?f = "filter (\<lambda>i. ?v ! i \<noteq> 0) [0 ..< length ?v]"
  from ex len have "?f \<noteq> []"
    by (auto simp: filter_empty_conv)
  then obtain i rest where f: "?f = i # rest"
    by (cases ?f) simp_all
  then have "i \<in> set ?f" by simp
  then have "i < length p" using len by simp
  with f show ?thesis
    by (simp add: sample_def)
qed

lemma score_tracks:
  assumes "tracks m asg" and "number_docs m = Some D" and "vocab_size m = Some V"
    and "0 < alpha m" and "0 < beta m" and "1 \<le> D" and "1 \<le> K m" and "1 \<le> V"
  shows "\<exists>p. score m doc = Inr p \<and> length p = nat (K m)"
proof -
  from assms(1) have c: "consistent m" by (simp add: tracks_def)
  with assms(2,3) have f: "fitted m D V"
    by (simp add: fitted_def consistent_def)
  have nn: "\<forall>z < nat (K m). 0 \<le> cluster_doc_count m ! z \<and> 0 \<le> cluster_word_count m ! z"
  proof (intro allI impI conjI)
    fix z assume z: "z < nat (K m)"
    with assms(1) show "0 \<le> cluster_doc_count m ! z"
      by (simp add: tracks_def members_nonneg)
    from c z have "cluster_word_count m ! z = sum_list (map snd (cluster_word_distribution m ! z))"
      and "dict_ok (cluster_word_distribution m ! z)"
      by (simp_all add: consistent_def)
    moreover have "0 \<le> sum_list (map snd d)" if "dict_ok d" for d :: dict
    proof (rule sum_list_nonneg)
      fix x assume "x \<in> set (map snd d)"
      then obtain wc where "wc \<in> set d" and "x = snd wc" by auto
      with that show "0 \<le> x" by (auto simp: dict_ok_def intro: less_imp_le)
    qed
    ultimately show "0 \<le> cluster_word_count m ! z"
      by simp
  qed
  have fr: "\<forall>z < nat (K m). \<forall>w. 0 \<le> freq m z w"
    using assms(1) by (simp add: tracks_def dict_get_freq [symmetric] occ_nonneg)
  have "\<forall>x \<in> set (log_args m D V doc). 0 < x"
    using log_args_positive [OF assms(4,5,6,7,8) nn fr] by blast
  then have "score m doc = Inr (normalize_vec (map (posterior_weight m D V doc) [0 ..< nat (K m)]))"
    by (simp add: score_fitted [OF f])
  then show ?thesis
    by (simp add: normalize_vec_length)
qed

lemma add_doc_configured:
  "add_doc m z doc = Inr m' \<Longrightarrow> configured m D V \<Longrightarrow> configured m' D V"
  using add_doc_fields [of m z doc m'] by (simp add: configured_def)

lemma remove_doc_configured:
  "remove_doc m z doc = Inr m' \<Longrightarrow> configured m D V \<Longrightarrow> configured m' D V"
  using remove_doc_fields [of m z doc m'] by (simp add: configured_def)

lemma zip_update_left:
  assumes "i < length ls" and "length ls = length ds"
  shows "zip (ls[i := z]) ds
           = take i (zip ls ds) @ (z, ds ! i) # drop (Suc i) (zip ls ds)"
proof -
  have "zip (ls[i := z]) ds = zip (ls[i := fst (z, ds ! i)]) (ds[i := snd (z, ds ! i)])"
    by simp
  also have "\<dots> = (zip ls ds)[i := (z, ds ! i)]"
    by (rule update_zip [symmetric])
  also have "\<dots> = take i (zip ls ds) @ (z, ds ! i) # drop (Suc i) (zip ls ds)"
    using assms by (intro upd_conv_take_nth_drop) simp
  finally show ?thesis .
qed

lemma zip_split_at:
  assumes "i < length ls" and "length ls = length ds"
  shows "zip ls ds = take i (zip ls ds) @ (ls ! i, ds ! i) # drop (Suc i) (zip ls ds)"
proof -
  have "i < length (zip ls ds)" using assms by simp
  then have "zip ls ds = take i (zip ls ds) @ zip ls ds ! i # drop (Suc i) (zip ls ds)"
    by (rule id_take_nth_drop)
  then show ?thesis using assms by simp
qed

lemma reassign_sound:
  assumes "valid_rng g" and "sound docs docs V s" and "i < length docs"
  shows "\<exists>s' tt'. reassign g s i (docs ! i) tt = Inr (s', tt') \<and> sound docs docs V s'"
proof -
  let ?D = "int (length docs)"
  let ?zs = "zip (d_z s) docs"
  let ?z = "d_z s ! i"
  let ?doc = "docs ! i"
  from assms(2) have cf: "configured (model s) ?D V" and len: "length (d_z s) = length docs"
    and tr: "tracks (model s) ?zs" and lab: "\<forall>l \<in> set (d_z s). l < nat (K (model s))"
    by (simp_all add: sound_def)
  have il: "i < length (d_z s)" using assms(3) len by simp
  then have zK: "?z < nat (K (model s))" using lab by simp
  have "tracks (model s) (take i ?zs @ (?z, ?doc) # drop (Suc i) ?zs)"
    using tr zip_split_at [OF il len] by simp
  from remove_doc_tracks [OF this zK] obtain m1 where
    r: "remove_doc (model s) ?z ?doc = Inr m1" and t1: "tracks m1 (take i ?zs @ drop (Suc i) ?zs)"
    by blast
  have c1: "configured m1 ?D V" using r cf by (rule remove_doc_configured)
  have k1: "K m1 = K (model s)" using remove_doc_fields [OF r] by simp
  have "1 \<le> ?D" using assms(3) by simp
  with c1 t1 obtain p where p: "score m1 ?doc = Inr p" and lp: "length p = nat (K m1)"
    using score_tracks [of m1 _ ?D V ?doc] by (auto simp: configured_def)
  have "p \<noteq> []" using lp c1 by (auto simp: configured_def)
  from sample_valid [OF assms(1) this] lp obtain z_new where
    zn: "z_new < nat (K m1)" and sm: "sample (g (draws s) p) = Inr z_new"
    by auto
  from add_doc_tracks [OF t1 zn] obtain m2 where
    a: "add_doc m1 z_new ?doc = Inr m2"
    and t2: "tracks m2 (take i ?zs @ (z_new, ?doc) # drop (Suc i) ?zs)"
    by blast
  have c2: "configured m2 ?D V" using a c1 by (rule add_doc_configured)
  have k2: "K m2 = K (model s)" using add_doc_fields [OF a] k1 by simp
  let ?s' = "s\<lparr>model := m2, d_z := (d_z s)[i := z_new], draws := Suc (draws s),
                 trace := trace s @ [m2]\<rparr>"
  let ?tt' = "if z_new \<noteq> ?z then tt + 1 else tt"
  have res: "reassign g s i ?doc tt = Inr (?s', ?tt')"
    using il r p sm a by (simp add: reassign_def Let_def)
  have "\<forall>l \<in> set ((d_z s)[i := z_new]). l < nat (K m2)"
    using lab zn k1 k2 by (auto dest!: set_update_subset_insert [THEN subsetD])
  then have "sound docs docs V ?s'"
    using c2 len t2 zip_update_left [OF il len, of z_new] by (simp add: sound_def)
  with res show ?thesis
    by blast
qed

lemma sweep_loop_sound:
  assumes "valid_rng g" and "sound docs docs V s" and "drop i docs = rest"
  shows "\<exists>s' tt'. sweep_loop g s i rest tt = Inr (s', tt') \<and> sound docs docs V s'"
  using assms(2,3)
proof (induction rest arbitrary: s i tt)
  case Nil
  then show ?case by simp
next
  case (Cons doc rest)
  from Cons.prems(2) have i: "i < length docs"
    by (cases "i < length docs") simp_all
  then have d: "docs ! i = doc" and dr: "drop (Suc i) docs = rest"
    using Cons.prems(2) by (simp_all add: Cons_nth_drop_Suc [symmetric])
  from reassign_sound [OF assms(1) Cons.prems(1) i, of tt] d obtain s1 t1 where
    r: "reassign g s i doc tt = Inr (s1, t1)" and s1: "sound docs docs V s1"
    by auto
  from Cons.IH [OF s1 dr, of t1] r show ?case
    by auto
qed

lemma sound_stages [simp]:
  "sound docs pre V (s\<lparr>stages := x\<rparr>) = sound docs pre V s"
  by (simp add: sound_def)

lemma sweeps_sound:
  assumes "valid_rng g" and "sound docs docs V s"
  shows "\<exists>r. sweeps g docs s cc its = Inr r"
  using assms(2)
proof (induction its arbitrary: s cc)
  case Nil
  then show ?case by simp
next
  case (Cons iter iters)
  from sweep_loop_sound [OF assms(1) Cons.prems, of 0 docs 0] obtain s' tt where
    l: "sweep_loop g s 0 docs 0 = Inr (s', tt)" and s': "sound docs docs V s'"
    by auto
  let ?s = "s'\<lparr>stages := stages s' @ [(iter, tt, populated (model s'))]\<rparr>"
  have "sound docs docs V ?s" using s' by simp
  from Cons.IH [OF this, of "int (populated (model s'))"] l show ?case
    by (auto simp: Let_def)
qed

lemma init_loop_sound:
  assumes "valid_rng g" and "sound docs pre V s"
  shows "\<exists>s'. init_loop g s rest = Inr s' \<and> sound docs (pre @ rest) V s'"
  using assms(2)
proof (induction rest arbitrary: s pre)
  case Nil
  then show ?case by simp
next
  case (Cons doc rest)
  let ?D = "int (length docs)"
  let ?p = "replicate (nat (K (model s))) (1 / real_of_int (K (model s)))"
  from Cons.prems have cf: "configured (model s) ?D V" and len: "length (d_z s) = length pre"
    and tr: "tracks (model s) (zip (d_z s) pre)"
    and lab: "\<forall>l \<in> set (d_z s). l < nat (K (model s))"
    by (simp_all add: sound_def)
  have "?p \<noteq> []" using cf by (auto simp: configured_def)
  from sample_valid [OF assms(1) this] obtain z where
    zK: "z < nat (K (model s))" and sm: "sample (g (draws s) ?p) = Inr z"
    by auto
  from tr have "tracks (model s) (zip (d_z s) pre @ [])" by simp
  from add_doc_tracks [OF this zK] obtain m where
    a: "add_doc (model s) z doc = Inr m" and t: "tracks m (zip (d_z s) pre @ [(z, doc)])"
    by auto
  have c: "configured m ?D V" using a cf by (rule add_doc_configured)
  have k: "K m = K (model s)" using add_doc_fields [OF a] by simp
  let ?s = "s\<lparr>model := m, d_z := d_z s @ [z], draws := Suc (draws s)\<rparr>"
  have "sound docs (pre @ [doc]) V ?s"
    using c len t lab zK k by (simp add: sound_def)
  from Cons.IH [OF this] sm a show ?case
    by simp
qed

lemma tracks_mgp_init:
  "tracks ((mgp_init k a b n)\<lparr>number_docs := D, vocab_size := V\<rparr>) []"
  using consistent_mgp_init
  by (simp add: tracks_def mgp_init_def occ_def members_def dict_get_def)

text \<open>
  A run of \<open>fit\<close> on a freshly constructed model returns (no \<open>KeyError\<close>, no
  \<open>IndexError\<close>, no logarithm of a non-positive number) for every corpus, when the
  random source is valid, \<open>alpha\<close> and \<open>beta\<close> are positive and \<open>K\<close> and the
  vocabulary size are at least 1.
\<close>

theorem fit_returns:
  assumes "valid_rng g" and "0 < a" and "0 < b" and "1 \<le> k" and "1 \<le> V"
  shows "\<exists>r. fit g (mgp_init k a b n) docs V = Inr r"
proof -
  let ?m = "(mgp_init k a b n)\<lparr>number_docs := Some (int (length docs)), vocab_size := Some V\<rparr>"
  let ?s = "\<lparr>model = ?m, d_z = [], draws = 0, stages = [], converged = False, trace = []\<rparr>"
  have "configured ?m (int (length docs)) V"
    using assms(2-5) by (simp add: configured_def mgp_init_def)
  then have "sound docs [] V ?s"
    using tracks_mgp_init by (simp add: sound_def)
  from init_loop_sound [OF assms(1) this, of docs] obtain s where
    i: "init_pass g (mgp_init k a b n) docs V = Inr s" and s: "sound docs docs V s"
    by (auto simp: init_pass_def)
  from sweeps_sound [OF assms(1) s] obtain r where
    "sweeps g docs s (K (mgp_init k a b n)) [0 ..< nat (n_iters (mgp_init k a b n))] = Inr r"
    by blast
  with i show ?thesis
    by (simp add: fit_def)
qed

end
